theory Spec2Isabelle
  imports Complex_Main "HOL-Library.Word" "HOL-Library.Multiset"
begin

unbundle bit_operations_syntax

section \<open>Go's \<open>int\<close> on a 64-bit target\<close>

text \<open>
  The package computes on Go's \<open>int\<close>, which is a 64-bit two's complement integer on
  amd64 and arm64.  A value of that type is modelled as the \<open>int\<close> it denotes, between
  \<open>- 2 ^ 63\<close> and \<open>2 ^ 63 - 1\<close>, and every operation that can leave that range wraps
  around explicitly through \<open>wrap64\<close>.  The bitwise operators \<open>&\<close>, \<open>|\<close>, \<open>^\<close> and
  \<open>&^\<close> never leave the range and are HOL's \<open>AND\<close>, \<open>OR\<close>, \<open>XOR\<close> and
  \<open>AND NOT\<close> on \<open>int\<close>, which are two's complement as well.  Packet counts and
  loop indices, which the code only ever uses as non-negative shift counts and bounds,
  are \<open>nat\<close>.
\<close>

definition wrap64 :: "int \<Rightarrow> int" where
  "wrap64 x = signed_take_bit 63 x"

text \<open>\<open>a << s\<close> for a shift count \<open>s \<ge> 0\<close>: the bits shifted beyond bit 63 are lost.\<close>

definition shl64 :: "int \<Rightarrow> nat \<Rightarrow> int" where
  "shl64 a s = wrap64 (push_bit s a)"

text \<open>\<open>a + b\<close>, \<open>a - b\<close> and \<open>- a\<close>.\<close>

definition add64 :: "int \<Rightarrow> int \<Rightarrow> int" where
  "add64 a b = wrap64 (a + b)"

definition sub64 :: "int \<Rightarrow> int \<Rightarrow> int" where
  "sub64 a b = wrap64 (a - b)"

definition neg64 :: "int \<Rightarrow> int" where
  "neg64 a = wrap64 (- a)"

text \<open>
  \<open>a / b\<close> for \<open>b \<noteq> 0\<close>: Go truncates towards zero (the quotient of the most negative
  value by \<open>-1\<close> wraps).  Division by zero is a run-time panic and is handled where the
  division is called.
\<close>

definition quo64 :: "int \<Rightarrow> int \<Rightarrow> int" where
  "quo64 a b = wrap64 (sgn a * sgn b * (\<bar>a\<bar> div \<bar>b\<bar>))"

text \<open>\<open>a >> s\<close> on a signed operand is the arithmetic shift.\<close>

definition shr64 :: "int \<Rightarrow> nat \<Rightarrow> int" where
  "shr64 a s = drop_bit s a"

text \<open>The number of set bits of a natural number (of a non-negative vertex or pattern).\<close>

fun popcount :: "nat \<Rightarrow> nat" where
  "popcount n = (if n = 0 then 0 else n mod 2 + popcount (n div 2))"

declare popcount.simps [simp del]

section \<open>The recovery graph (\<open>recovery_graph.go\<close>)\<close>

text \<open>
  \<open>Mask\<close> is the interface a protection pattern implements: \<open>IsProtected packetIndex
  fecIndex\<close>, \<open>N()\<close> and \<open>K()\<close>.  The graph only asks \<open>IsProtected\<close> at indices
  \<open>0 \<le> packetIndex < N\<close> and \<open>0 \<le> fecIndex < K\<close>.
\<close>

record Mask =
  IsProtected :: "nat \<Rightarrow> nat \<Rightarrow> bool"
  mask_N :: nat
  mask_K :: nat

text \<open>
  The struct \<open>RecoveryGraph\<close>; its fields \<open>N\<close>, \<open>K\<close> and \<open>mask\<close> are \<open>graph_N\<close>,
  \<open>graph_K\<close> and \<open>graph_mask\<close> here.
\<close>

record RecoveryGraph =
  numVertices :: int
  graph_N :: nat
  graph_K :: nat
  graph_mask :: Mask

definition NewRecoveryGraph :: "Mask \<Rightarrow> RecoveryGraph" where
  "NewRecoveryGraph m =
     \<lparr>numVertices = shl64 1 (mask_N m + mask_K m),
      graph_N = mask_N m, graph_K = mask_K m, graph_mask = m\<rparr>"

definition NumVertices :: "RecoveryGraph \<Rightarrow> int" where
  "NumVertices g = numVertices g"

text \<open>The loop of \<open>canUseFECPacket\<close> over the packet indices still to be looked at.\<close>

fun canUseFECPacket_loop :: "RecoveryGraph \<Rightarrow> int \<Rightarrow> nat \<Rightarrow> nat list \<Rightarrow> bool" where
  "canUseFECPacket_loop g vertex fecIndex [] = True"
| "canUseFECPacket_loop g vertex fecIndex (packetIndex # rest) =
     (if IsProtected (graph_mask g) packetIndex fecIndex \<and> vertex AND shl64 1 packetIndex = 0
      then False
      else canUseFECPacket_loop g vertex fecIndex rest)"

definition canUseFECPacket :: "RecoveryGraph \<Rightarrow> int \<Rightarrow> nat \<Rightarrow> bool" where
  "canUseFECPacket g vertex fecIndex =
     (let fecBitPosition = graph_N g + fecIndex in
      if vertex AND shl64 1 fecBitPosition = 0 then False
      else canUseFECPacket_loop g vertex fecIndex [0..<graph_N g])"

text \<open>The loop of \<open>addRecoveryEdges\<close>; \<open>edges\<close> is the slice appended to.\<close>

fun addRecoveryEdges_loop ::
  "RecoveryGraph \<Rightarrow> int \<Rightarrow> nat \<Rightarrow> nat list \<Rightarrow> int list \<Rightarrow> int list" where
  "addRecoveryEdges_loop g vertex fecIndex [] edges = edges"
| "addRecoveryEdges_loop g vertex fecIndex (packetIndex # rest) edges =
     (if IsProtected (graph_mask g) packetIndex fecIndex then
        (let destVertex = vertex AND NOT (shl64 1 packetIndex) in
         if destVertex \<noteq> vertex
         then addRecoveryEdges_loop g vertex fecIndex rest (edges @ [destVertex])
         else addRecoveryEdges_loop g vertex fecIndex rest edges)
      else addRecoveryEdges_loop g vertex fecIndex rest edges)"

definition addRecoveryEdges :: "RecoveryGraph \<Rightarrow> int list \<Rightarrow> int \<Rightarrow> nat \<Rightarrow> int list" where
  "addRecoveryEdges g edges vertex fecIndex =
     addRecoveryEdges_loop g vertex fecIndex [0..<graph_N g] edges"

fun GetEdges_loop :: "RecoveryGraph \<Rightarrow> int \<Rightarrow> nat list \<Rightarrow> int list \<Rightarrow> int list" where
  "GetEdges_loop g vertex [] edges = edges"
| "GetEdges_loop g vertex (fecIndex # rest) edges =
     (if canUseFECPacket g vertex fecIndex
      then GetEdges_loop g vertex rest (addRecoveryEdges g edges vertex fecIndex)
      else GetEdges_loop g vertex rest edges)"

definition GetEdges :: "RecoveryGraph \<Rightarrow> int \<Rightarrow> int list" where
  "GetEdges g vertex =
     (if vertex < 0 \<or> vertex \<ge> numVertices g then []
      else GetEdges_loop g vertex [0..<graph_K g] [])"

text \<open>
  A walk in the recovery graph: a sequence of vertices, each one among the edges
  \<open>GetEdges\<close> returns for the one before.
\<close>

fun is_walk :: "RecoveryGraph \<Rightarrow> int list \<Rightarrow> bool" where
  "is_walk g [] = True"
| "is_walk g [v] = True"
| "is_walk g (u # v # rest) = (v \<in> set (GetEdges g u) \<and> is_walk g (v # rest))"

text \<open>
  What the specification says \<open>edgesFrom\<close> emits, as a multiset: for each parity index
  \<open>j < K\<close> whose bit \<open>N + j\<close> is set in \<open>v\<close> and all of whose protected data indices
  are present in \<open>v\<close>, one destination per protected data index \<open>d\<close>, which is \<open>v\<close>
  with bit \<open>d\<close> cleared.
\<close>

definition parity_usable :: "Mask \<Rightarrow> int \<Rightarrow> nat \<Rightarrow> bool" where
  "parity_usable m v j =
     (bit v (mask_N m + j) \<and> (\<forall>d < mask_N m. IsProtected m d j \<longrightarrow> bit v d))"

definition spec_edges :: "Mask \<Rightarrow> int \<Rightarrow> int multiset" where
  "spec_edges m v =
     (\<Sum>j \<in># mset_set {j. j < mask_K m \<and> parity_usable m v j}.
        image_mset (\<lambda>d. unset_bit d v) (mset_set {d. d < mask_N m \<and> IsProtected m d j}))"

text \<open>The protection pattern of the specification's scenario: parity 0 protects data 0 and 1.\<close>

definition scenario_mask :: Mask where
  "scenario_mask =
     \<lparr>IsProtected = (\<lambda>packetIndex fecIndex. fecIndex = 0 \<and> packetIndex < 2),
      mask_N = 3, mask_K = 1\<rparr>"

text \<open>A pattern of 63 packets: one data packet, protected by each of 62 parity packets.\<close>

definition wide_mask :: Mask where
  "wide_mask = \<lparr>IsProtected = (\<lambda>packetIndex fecIndex. True), mask_N = 1, mask_K = 62\<rparr>"

section \<open>The loss models (\<open>loss_model.go\<close>, the random model, \<open>gilbert_elliott_loss_model.go\<close>)\<close>

text \<open>
  Go's \<open>float64\<close> is idealised as \<open>real\<close>: the models are studied in exact arithmetic,
  rounding is not represented.  \<open>math.Pow\<close> with a count as exponent is the power of
  \<open>real\<close> (both give 1 for exponent 0).
\<close>

text \<open>The struct \<open>RandomLossModel\<close>; its only field is \<open>P\<close>.\<close>

record RandomLossModel =
  loss_P :: real

definition NewRandomLossModel :: "real \<Rightarrow> RandomLossModel" where
  "NewRandomLossModel p = \<lparr>loss_P = p\<rparr>"

text \<open>The counting loop of \<open>RandomLossModel.CalculateProbability\<close>, on \<open>(onesCount, zerosCount)\<close>.\<close>

fun countBits_loop :: "int \<Rightarrow> nat list \<Rightarrow> nat \<times> nat \<Rightarrow> nat \<times> nat" where
  "countBits_loop vertex [] (onesCount, zerosCount) = (onesCount, zerosCount)"
| "countBits_loop vertex (i # rest) (onesCount, zerosCount) =
     (if vertex AND shl64 1 i \<noteq> 0
      then countBits_loop vertex rest (onesCount + 1, zerosCount)
      else countBits_loop vertex rest (onesCount, zerosCount + 1))"

definition Random_CalculateProbability :: "RandomLossModel \<Rightarrow> int \<Rightarrow> int \<Rightarrow> real" where
  "Random_CalculateProbability m vertex N =
     (if N \<le> 0 then 0
      else (case countBits_loop vertex [0..<nat N] (0, 0) of
              (onesCount, zerosCount) \<Rightarrow> loss_P m ^ zerosCount * (1 - loss_P m) ^ onesCount))"

definition Random_GetAverageLossProbability :: "RandomLossModel \<Rightarrow> real" where
  "Random_GetAverageLossProbability m = loss_P m"

text \<open>The struct \<open>cacheKey\<close> with its fields \<open>pattern\<close>, \<open>length\<close> and \<open>initState\<close>.\<close>

record cacheKey =
  key_pattern :: int
  key_length :: int
  key_initState :: int

text \<open>
  The struct \<open>GilbertElliotLossModel\<close>.  The mutex is left out: calls are modelled one
  after the other, each returning the model with its cache as the call left it.
\<close>

record GilbertElliotLossModel =
  Pe0 :: real
  Pe1 :: real
  P01 :: real
  P10 :: real
  cache :: "cacheKey \<rightharpoonup> real"
  steadyState0 :: real
  steadyState1 :: real

definition NewGilbertElliotLossModel ::
  "real \<Rightarrow> real \<Rightarrow> real \<Rightarrow> real \<Rightarrow> GilbertElliotLossModel" where
  "NewGilbertElliotLossModel pe0 pe1 p01 p10 =
     (let denominator = p01 + p10 in
      if denominator > 0
      then \<lparr>Pe0 = pe0, Pe1 = pe1, P01 = p01, P10 = p10, cache = Map.empty,
            steadyState0 = p10 / denominator, steadyState1 = p01 / denominator\<rparr>
      else \<lparr>Pe0 = pe0, Pe1 = pe1, P01 = p01, P10 = p10, cache = Map.empty,
            steadyState0 = 0.5, steadyState1 = 0.5\<rparr>)"

definition NewGilbertLossModel :: "real \<Rightarrow> real \<Rightarrow> real \<Rightarrow> GilbertElliotLossModel" where
  "NewGilbertLossModel pe1 p01 p10 = NewGilbertElliotLossModel 0 pe1 p01 p10"

text \<open>
  The loop that fills the table \<open>dp\<close> of \<open>computePatternProbabilityDP\<close>, for the indices
  \<open>i\<close> still to come; a row \<open>dp[i]\<close> is the pair \<open>(dp[i][0], dp[i][1])\<close>.
\<close>

fun computePatternProbabilityDP_loop ::
  "GilbertElliotLossModel \<Rightarrow> int \<Rightarrow> nat list \<Rightarrow> (real \<times> real) list \<Rightarrow> (real \<times> real) list" where
  "computePatternProbabilityDP_loop m pattern [] dp = dp"
| "computePatternProbabilityDP_loop m pattern (i # rest) dp =
     (let packetIndex = i - 1;
          packetDelivered = (pattern AND shl64 1 packetIndex \<noteq> 0);
          prev = dp ! (i - 1);
          dp_i_0 =
            (if packetDelivered
             then fst prev * (1 - P01 m) * (1 - Pe0 m) + snd prev * P10 m * (1 - Pe0 m)
             else fst prev * (1 - P01 m) * Pe0 m + snd prev * P10 m * Pe0 m);
          dp_i_1 =
            (if packetDelivered
             then fst prev * P01 m * (1 - Pe1 m) + snd prev * (1 - P10 m) * (1 - Pe1 m)
             else fst prev * P01 m * Pe1 m + snd prev * (1 - P10 m) * Pe1 m)
      in computePatternProbabilityDP_loop m pattern rest (dp[i := (dp_i_0, dp_i_1)]))"

text \<open>
  \<open>computePatternProbabilityDP\<close>, with \<open>len\<close> for its parameter \<open>length\<close>; its only
  caller passes a length greater than 0, so the table of \<open>length + 1\<close> rows can
  always be made.
\<close>

definition computePatternProbabilityDP ::
  "GilbertElliotLossModel \<Rightarrow> int \<Rightarrow> nat \<Rightarrow> int \<Rightarrow> real" where
  "computePatternProbabilityDP m pattern len initState =
     (let dp = replicate (len + 1) (0, 0);
          dp = dp[0 := (if initState = 0 then (1, 0) else (0, 1))];
          dp = computePatternProbabilityDP_loop m pattern [1..<len + 1] dp
      in fst (dp ! len) + snd (dp ! len))"

text \<open>\<open>calculatePatternProbability\<close> returns the probability and the model with its cache.\<close>

definition calculatePatternProbability ::
  "GilbertElliotLossModel \<Rightarrow> int \<Rightarrow> nat \<Rightarrow> int \<Rightarrow> real \<times> GilbertElliotLossModel" where
  "calculatePatternProbability m pattern len initState =
     (if len = 0 then (1, m)
      else
        (let key = \<lparr>key_pattern = pattern, key_length = int len, key_initState = initState\<rparr> in
         case cache m key of
           Some prob \<Rightarrow> (prob, m)
         | None \<Rightarrow>
             (let prob = computePatternProbabilityDP m pattern len initState
              in (prob, m\<lparr>cache := (cache m)(key \<mapsto> prob)\<rparr>))))"

definition GE_CalculateProbability ::
  "GilbertElliotLossModel \<Rightarrow> int \<Rightarrow> int \<Rightarrow> real \<times> GilbertElliotLossModel" where
  "GE_CalculateProbability m vertex N =
     (if N \<le> 0 then (0, m)
      else
        (case calculatePatternProbability m vertex (nat N) 0 of
           (prob0, m') \<Rightarrow>
             (case calculatePatternProbability m' vertex (nat N) 1 of
                (prob1, m'') \<Rightarrow>
                  (steadyState0 m'' * prob0 + steadyState1 m'' * prob1, m''))))"

definition GetSteadyStateProbabilities :: "GilbertElliotLossModel \<Rightarrow> real \<times> real" where
  "GetSteadyStateProbabilities m = (steadyState0 m, steadyState1 m)"

definition ClearCache :: "GilbertElliotLossModel \<Rightarrow> GilbertElliotLossModel" where
  "ClearCache m = m\<lparr>cache := Map.empty\<rparr>"

definition GE_GetAverageLossProbability :: "GilbertElliotLossModel \<Rightarrow> real" where
  "GE_GetAverageLossProbability m = steadyState0 m * Pe0 m + steadyState1 m * Pe1 m"

text \<open>
  The states a model can be in: the one its constructor returns, and those that calls of
  \<open>CalculateProbability\<close> and \<open>ClearCache\<close> lead to from there.
\<close>

inductive model_state :: "GilbertElliotLossModel \<Rightarrow> GilbertElliotLossModel \<Rightarrow> bool"
  for m0 :: GilbertElliotLossModel where
  constructed: "model_state m0 m0"
| calculated: "model_state m0 m \<Longrightarrow> model_state m0 (snd (GE_CalculateProbability m vertex N))"
| cleared: "model_state m0 m \<Longrightarrow> model_state m0 (ClearCache m)"

text \<open>One step of the forward recursion, from the row \<open>dp[i - 1]\<close> to the row \<open>dp[i]\<close>.\<close>

definition dp_step :: "GilbertElliotLossModel \<Rightarrow> bool \<Rightarrow> real \<times> real \<Rightarrow> real \<times> real" where
  "dp_step m packetDelivered prev =
     (if packetDelivered
      then (fst prev * (1 - P01 m) * (1 - Pe0 m) + snd prev * P10 m * (1 - Pe0 m),
            fst prev * P01 m * (1 - Pe1 m) + snd prev * (1 - P10 m) * (1 - Pe1 m))
      else (fst prev * (1 - P01 m) * Pe0 m + snd prev * P10 m * Pe0 m,
            fst prev * P01 m * Pe1 m + snd prev * (1 - P10 m) * Pe1 m))"

text \<open>The row \<open>dp[i]\<close> as a function of \<open>i\<close>.\<close>

fun dp_row :: "GilbertElliotLossModel \<Rightarrow> int \<Rightarrow> int \<Rightarrow> nat \<Rightarrow> real \<times> real" where
  "dp_row m pattern initState 0 = (if initState = 0 then (1, 0) else (0, 1))"
| "dp_row m pattern initState (Suc i) =
     dp_step m (pattern AND shl64 1 i \<noteq> 0) (dp_row m pattern initState i)"

text \<open>What \<open>CalculateProbability\<close> returns when nothing is cached.\<close>

definition GE_probability :: "GilbertElliotLossModel \<Rightarrow> int \<Rightarrow> int \<Rightarrow> real" where
  "GE_probability m vertex N =
     (if N \<le> 0 then 0
      else steadyState0 m * computePatternProbabilityDP m vertex (nat N) 0 +
           steadyState1 m * computePatternProbabilityDP m vertex (nat N) 1)"

text \<open>The cache holds nothing but values the dynamic program computes for their keys.\<close>

definition cache_ok :: "GilbertElliotLossModel \<Rightarrow> GilbertElliotLossModel \<Rightarrow> bool" where
  "cache_ok m0 m \<longleftrightarrow>
     (\<exists>c. m = m0\<lparr>cache := c\<rparr> \<and>
        (\<forall>key prob. c key = Some prob \<longrightarrow>
           prob = computePatternProbabilityDP m0 (key_pattern key) (nat (key_length key))
                    (key_initState key)))"

text \<open>The probability of the low \<open>i\<close> packets of a pattern when each is lost with probability \<open>p\<close>.\<close>

fun bernoulli_weight :: "real \<Rightarrow> int \<Rightarrow> nat \<Rightarrow> real" where
  "bernoulli_weight p vertex 0 = 1"
| "bernoulli_weight p vertex (Suc i) =
     bernoulli_weight p vertex i * (if vertex AND shl64 1 i \<noteq> 0 then 1 - p else p)"

section \<open>Recovery characteristics (\<open>recovery_characteristics.go\<close>)\<close>

text \<open>The run-time panics the code of this file can raise.\<close>

datatype go_panic = DivideByZero

record RecoveryCharacteristics =
  MinLostPacketsForNonRecovery :: int
  MinConsecutiveLostForNonRecovery :: int

text \<open>
  The loop of \<open>generateCombinations\<close>.  The callback is a function without effects (the
  one closure the package passes only reads a map); \<open>calls\<close> records the values it has
  been invoked on so far, in order, and is returned with the result.  The loop need not
  terminate: \<open>None\<close> stands for a call that never returns, \<open>Some (Inl e)\<close> for a panic.
\<close>

partial_function (option) generateCombinations_loop ::
  "(int \<Rightarrow> bool) \<Rightarrow> int \<Rightarrow> int \<Rightarrow> int list \<Rightarrow> (go_panic + bool \<times> int list) option" where
  "generateCombinations_loop callback maxCombination combination calls =
     (if combination \<le> maxCombination then
        (if callback combination then Some (Inr (True, calls @ [combination]))
         else
           (let rightmostMovable = combination AND neg64 combination;
                temp = add64 combination rightmostMovable
            in if temp > maxCombination then Some (Inr (False, calls @ [combination]))
               else if rightmostMovable = 0 then Some (Inl DivideByZero)
               else generateCombinations_loop callback maxCombination
                      (temp OR shr64 (quo64 (combination XOR temp) rightmostMovable) 2)
                      (calls @ [combination])))
      else Some (Inr (False, calls)))"

declare generateCombinations_loop.simps [code]

definition generateCombinations ::
  "nat \<Rightarrow> nat \<Rightarrow> (int \<Rightarrow> bool) \<Rightarrow> (go_panic + bool \<times> int list) option" where
  "generateCombinations n k callback =
     (if k = 0 then Some (Inr (callback 0, [0]))
      else if k > n then Some (Inr (False, []))
      else
        (let combination = sub64 (shl64 1 k) 1;
             maxCombination = shl64 combination (n - k)
         in generateCombinations_loop callback maxCombination combination []))"

text \<open>
  The map \<open>reachableSet\<close> of type \<open>map[int]bool\<close>; a lookup of a missing key gives
  \<open>false\<close>.
\<close>

definition lookup_bool :: "(int \<rightharpoonup> bool) \<Rightarrow> int \<Rightarrow> bool" where
  "lookup_bool reachableSet v = (case reachableSet v of None \<Rightarrow> False | Some b \<Rightarrow> b)"

definition hasNonRecoverablePattern ::
  "nat \<Rightarrow> nat \<Rightarrow> nat \<Rightarrow> nat \<Rightarrow> (int \<rightharpoonup> bool) \<Rightarrow> (go_panic + bool) option" where
  "hasNonRecoverablePattern N K totalPackets numLost reachableSet =
     map_option (map_sum id fst)
       (generateCombinations totalPackets numLost
          (\<lambda>lossPattern.
             let deliveryPattern = sub64 (shl64 1 totalPackets) 1 XOR lossPattern
             in \<not> lookup_bool reachableSet deliveryPattern))"

text \<open>The loop of \<open>findMinLostPacketsForNonRecovery\<close> over the values of \<open>numLost\<close> to come.\<close>

fun findMinLostPacketsForNonRecovery_loop ::
  "nat \<Rightarrow> nat \<Rightarrow> nat \<Rightarrow> (int \<rightharpoonup> bool) \<Rightarrow> nat list \<Rightarrow> (go_panic + int) option" where
  "findMinLostPacketsForNonRecovery_loop N K totalPackets reachableSet [] = Some (Inr (- 1))"
| "findMinLostPacketsForNonRecovery_loop N K totalPackets reachableSet (numLost # rest) =
     (case hasNonRecoverablePattern N K totalPackets numLost reachableSet of
        None \<Rightarrow> None
      | Some (Inl e) \<Rightarrow> Some (Inl e)
      | Some (Inr True) \<Rightarrow> Some (Inr (int numLost))
      | Some (Inr False) \<Rightarrow>
          findMinLostPacketsForNonRecovery_loop N K totalPackets reachableSet rest)"

definition findMinLostPacketsForNonRecovery ::
  "nat \<Rightarrow> nat \<Rightarrow> nat \<Rightarrow> (int \<rightharpoonup> bool) \<Rightarrow> (go_panic + int) option" where
  "findMinLostPacketsForNonRecovery N K totalPackets reachableSet =
     findMinLostPacketsForNonRecovery_loop N K totalPackets reachableSet [1..<totalPackets + 1]"

text \<open>The innermost loop of \<open>findMinConsecutiveLostForNonRecovery\<close>, which sets the bits of the run.\<close>

fun lossPattern_loop :: "nat list \<Rightarrow> int \<Rightarrow> int" where
  "lossPattern_loop [] lossPattern = lossPattern"
| "lossPattern_loop (i # rest) lossPattern = lossPattern_loop rest (lossPattern OR shl64 1 i)"

text \<open>Its loop over the start positions; \<open>None\<close> when no position returns.\<close>

fun startPos_loop :: "nat \<Rightarrow> nat \<Rightarrow> (int \<rightharpoonup> bool) \<Rightarrow> nat list \<Rightarrow> int option" where
  "startPos_loop totalPackets consecutiveLen reachableSet [] = None"
| "startPos_loop totalPackets consecutiveLen reachableSet (startPos # rest) =
     (let lossPattern = lossPattern_loop [startPos..<startPos + consecutiveLen] 0;
          deliveryPattern = sub64 (shl64 1 totalPackets) 1 XOR lossPattern
      in if \<not> lookup_bool reachableSet deliveryPattern then Some (int consecutiveLen)
         else startPos_loop totalPackets consecutiveLen reachableSet rest)"

text \<open>Its outer loop over the run lengths.\<close>

fun findMinConsecutiveLostForNonRecovery_loop ::
  "nat \<Rightarrow> (int \<rightharpoonup> bool) \<Rightarrow> nat list \<Rightarrow> int" where
  "findMinConsecutiveLostForNonRecovery_loop totalPackets reachableSet [] = - 1"
| "findMinConsecutiveLostForNonRecovery_loop totalPackets reachableSet (consecutiveLen # rest) =
     (case startPos_loop totalPackets consecutiveLen reachableSet
             [0..<totalPackets - consecutiveLen + 1] of
        Some r \<Rightarrow> r
      | None \<Rightarrow> findMinConsecutiveLostForNonRecovery_loop totalPackets reachableSet rest)"

definition findMinConsecutiveLostForNonRecovery ::
  "nat \<Rightarrow> nat \<Rightarrow> nat \<Rightarrow> (int \<rightharpoonup> bool) \<Rightarrow> int" where
  "findMinConsecutiveLostForNonRecovery N K totalPackets reachableSet =
     findMinConsecutiveLostForNonRecovery_loop totalPackets reachableSet [1..<totalPackets + 1]"

text \<open>The loop that turns the slice \<open>reachable\<close> into the map \<open>reachableSet\<close>.\<close>

fun reachableSet_loop :: "int list \<Rightarrow> (int \<rightharpoonup> bool) \<Rightarrow> (int \<rightharpoonup> bool)" where
  "reachableSet_loop [] reachableSet = reachableSet"
| "reachableSet_loop (v # rest) reachableSet = reachableSet_loop rest (reachableSet(v \<mapsto> True))"

definition CalculateRecoveryCharacteristicsFromReachable ::
  "nat \<Rightarrow> nat \<Rightarrow> int list \<Rightarrow> (go_panic + RecoveryCharacteristics) option" where
  "CalculateRecoveryCharacteristicsFromReachable N K reachable =
     (let totalPackets = N + K;
          reachableSet = reachableSet_loop reachable Map.empty
      in case findMinLostPacketsForNonRecovery N K totalPackets reachableSet of
           None \<Rightarrow> None
         | Some (Inl e) \<Rightarrow> Some (Inl e)
         | Some (Inr minLostPackets) \<Rightarrow>
             (let minConsecutiveLost =
                    findMinConsecutiveLostForNonRecovery N K totalPackets reachableSet
              in Some (Inr \<lparr>MinLostPacketsForNonRecovery = minLostPackets,
                            MinConsecutiveLostForNonRecovery = minConsecutiveLost\<rparr>)))"

text \<open>A block of \<open>m\<close> ones.\<close>

definition ones :: "nat \<Rightarrow> nat" where
  "ones m = 2 ^ m - 1"

text \<open>
  What the specification says is enumerated: the integers with exactly \<open>k\<close> bits set among
  the low \<open>n\<close> bits, in increasing order.
\<close>

definition combinations :: "nat \<Rightarrow> nat \<Rightarrow> int list" where
  "combinations n k = map int (filter (\<lambda>x. popcount x = k) [0..<2 ^ n])"

text \<open>The values a search calls the callback on: all up to and including the first hit.\<close>

fun calls_until :: "(int \<Rightarrow> bool) \<Rightarrow> int list \<Rightarrow> int list" where
  "calls_until callback [] = []"
| "calls_until callback (x # xs) = (if callback x then [x] else x # calls_until callback xs)"

text \<open>
  The specification's notion of failure.  A count \<open>numLost\<close> fails when some loss pattern
  with exactly \<open>numLost\<close> bits set among the low \<open>total\<close> bits has its delivery pattern
  \<open>(2 ^ total - 1) XOR lossPattern\<close> absent from the reachable set; a run length fails
  when the pattern with exactly the bits \<open>[start, start + runLength)\<close> set, for some start
  with \<open>start + runLength \<le> total\<close>, has.
\<close>

definition lost_count_fails :: "nat \<Rightarrow> int list \<Rightarrow> nat \<Rightarrow> bool" where
  "lost_count_fails tot R numLost \<longleftrightarrow>
     (\<exists>lossPattern. 0 \<le> lossPattern \<and> lossPattern < 2 ^ tot \<and>
        popcount (nat lossPattern) = numLost \<and> (2 ^ tot - 1) XOR lossPattern \<notin> set R)"

definition run_fails :: "nat \<Rightarrow> int list \<Rightarrow> nat \<Rightarrow> bool" where
  "run_fails tot R runLength \<longleftrightarrow>
     (\<exists>start. start + runLength \<le> tot \<and>
        (2 ^ tot - 1) XOR push_bit start (mask runLength) \<notin> set R)"

text \<open>
  \<open>r\<close> is the smallest failing value in \<open>[1, total]\<close>, or \<open>-1\<close> when no value
  in that range fails.
\<close>

definition is_min_failing :: "(nat \<Rightarrow> bool) \<Rightarrow> nat \<Rightarrow> int \<Rightarrow> bool" where
  "is_min_failing fails tot r \<longleftrightarrow>
     (if \<exists>j. 1 \<le> j \<and> j \<le> tot \<and> fails j
      then 1 \<le> r \<and> r \<le> int tot \<and> fails (nat r) \<and> (\<forall>j. 1 \<le> j \<and> j < nat r \<longrightarrow> \<not> fails j)
      else r = - 1)"

text \<open>The value a search over increasing candidates returns.\<close>

definition first_failing :: "(nat \<Rightarrow> bool) \<Rightarrow> nat list \<Rightarrow> int" where
  "first_failing fails js = (case find fails js of Some j \<Rightarrow> int j | None \<Rightarrow> - 1)"

section \<open>Facts about the 64-bit operations\<close>

lemma wrap64_id: "- (2 ^ 63) \<le> x \<Longrightarrow> x < 2 ^ 63 \<Longrightarrow> wrap64 x = x"
  by (simp add: wrap64_def signed_take_bit_int_eq_self)

lemma shl64_one_small: "s \<le> 62 \<Longrightarrow> shl64 1 s = 2 ^ s"
proof -
  assume s: "s \<le> 62"
  have "(2::int) ^ s \<le> 2 ^ 62"
    using s by (intro power_increasing) auto
  then have "(2::int) ^ s < 2 ^ 63" by simp
  moreover have "- (2 ^ 63) \<le> (2::int) ^ s"
    by (rule order_trans [of _ 0]) auto
  ultimately show ?thesis
    by (simp add: shl64_def wrap64_id)
qed

lemma shl64_one_63: "shl64 1 63 = - (2 ^ 63)"
  by (simp add: shl64_def wrap64_def)

lemma shl64_one_large: "64 \<le> s \<Longrightarrow> shl64 1 s = 0"
proof -
  assume s: "64 \<le> s"
  have "take_bit 64 ((2::int) ^ s) = 0"
    using s by (simp add: take_bit_eq_0_iff le_imp_power_dvd)
  then have "signed_take_bit 63 ((2::int) ^ s) = 0"
    by (simp add: signed_take_bit_eq_take_bit_minus bit_exp_iff)
  then show ?thesis by (simp add: shl64_def wrap64_def)
qed

lemma shl64_one_pos_iff: "0 < shl64 1 s \<longleftrightarrow> s \<le> 62"
proof (cases "s \<le> 62")
  case True
  then show ?thesis by (simp add: shl64_one_small)
next
  case False
  then have "s = 63 \<or> 64 \<le> s" by arith
  then show ?thesis
    using False by (auto simp: shl64_one_63 shl64_one_large)
qed

lemma and_exp_eq_0_iff: "(v::int) AND 2 ^ p = 0 \<longleftrightarrow> \<not> bit v p"
  by (simp add: and_exp_eq_0_iff_not_bit)

lemma and_not_exp_eq: "(v::int) AND NOT (2 ^ p) = unset_bit p v"
  by (simp add: unset_bit_int_def)

section \<open>The edges of the recovery graph\<close>

lemma canUseFECPacket_loop_iff:
  "canUseFECPacket_loop g v j ps \<longleftrightarrow>
     (\<forall>p \<in> set ps. IsProtected (graph_mask g) p j \<longrightarrow> v AND shl64 1 p \<noteq> 0)"
  by (induction ps) auto

lemma addRecoveryEdges_loop_eq:
  "addRecoveryEdges_loop g v j ps acc =
     acc @ map (\<lambda>p. v AND NOT (shl64 1 p))
             (filter (\<lambda>p. IsProtected (graph_mask g) p j \<and> v AND NOT (shl64 1 p) \<noteq> v) ps)"
  by (induction ps arbitrary: acc) (auto simp: Let_def)

lemma GetEdges_loop_eq:
  "GetEdges_loop g v js acc =
     acc @ concat (map (\<lambda>j. if canUseFECPacket g v j then addRecoveryEdges g [] v j else []) js)"
  by (induction js arbitrary: acc) (auto simp: addRecoveryEdges_def addRecoveryEdges_loop_eq)

lemma unset_bit_neq_iff: "unset_bit p (v::int) \<noteq> v \<longleftrightarrow> bit v p"
proof
  assume "unset_bit p v \<noteq> v"
  then show "bit v p"
    by (metis bit_eqI bit_unset_bit_iff)
next
  assume "bit v p"
  then have "\<not> bit (unset_bit p v) p" by (simp add: bit_unset_bit_iff)
  then show "unset_bit p v \<noteq> v" using \<open>bit v p\<close> by auto
qed

lemma concat_map_if:
  "concat (map (\<lambda>j. if P j then f j else []) xs) = concat (map f (filter P xs))"
  by (induction xs) auto

text \<open>Within the 62 bits the vertex count leaves room for, the code is the specification's rule.\<close>

lemma canUseFECPacket_small:
  assumes "mask_N m + mask_K m \<le> 62" "j < mask_K m"
  shows "canUseFECPacket (NewRecoveryGraph m) v j \<longleftrightarrow> parity_usable m v j"
proof -
  have "shl64 1 (mask_N m + j) = 2 ^ (mask_N m + j)"
    using assms by (intro shl64_one_small) arith
  moreover have "\<forall>p < mask_N m. shl64 1 p = 2 ^ p"
    using assms by (auto intro: shl64_one_small)
  ultimately show ?thesis
    by (auto simp: canUseFECPacket_def canUseFECPacket_loop_iff parity_usable_def
        NewRecoveryGraph_def and_exp_eq_0_iff)
qed

lemma addRecoveryEdges_small:
  assumes "mask_N m + mask_K m \<le> 62" "parity_usable m v j"
  shows "addRecoveryEdges (NewRecoveryGraph m) [] v j =
           map (\<lambda>d. unset_bit d v) (filter (\<lambda>d. IsProtected m d j) [0..<mask_N m])"
proof -
  have sh: "\<And>p. p < mask_N m \<Longrightarrow> shl64 1 p = 2 ^ p"
    using assms by (auto intro: shl64_one_small)
  have "filter (\<lambda>p. IsProtected m p j \<and> v AND NOT (shl64 1 p) \<noteq> v) [0..<mask_N m] =
        filter (\<lambda>d. IsProtected m d j) [0..<mask_N m]"
    using assms(2)
    by (intro filter_cong) (auto simp: sh and_not_exp_eq unset_bit_neq_iff parity_usable_def)
  moreover have "map (\<lambda>p. v AND NOT (shl64 1 p)) (filter (\<lambda>d. IsProtected m d j) [0..<mask_N m]) =
        map (\<lambda>d. unset_bit d v) (filter (\<lambda>d. IsProtected m d j) [0..<mask_N m])"
    by (intro map_cong) (auto simp: sh and_not_exp_eq)
  ultimately show ?thesis
    by (simp add: addRecoveryEdges_def addRecoveryEdges_loop_eq NewRecoveryGraph_def)
qed

lemma GetEdges_small:
  assumes "mask_N m + mask_K m \<le> 62" "0 \<le> v" "v < 2 ^ (mask_N m + mask_K m)"
  shows "GetEdges (NewRecoveryGraph m) v =
     concat (map (\<lambda>j. map (\<lambda>d. unset_bit d v) (filter (\<lambda>d. IsProtected m d j) [0..<mask_N m]))
               (filter (parity_usable m v) [0..<mask_K m]))"
proof -
  let ?g = "NewRecoveryGraph m"
  have nv: "numVertices ?g = 2 ^ (mask_N m + mask_K m)"
    using assms(1) by (simp add: NewRecoveryGraph_def shl64_one_small)
  have "GetEdges ?g v =
     concat (map (\<lambda>j. if canUseFECPacket ?g v j then addRecoveryEdges ?g [] v j else [])
               [0..<mask_K m])"
    using assms nv by (simp add: GetEdges_def GetEdges_loop_eq) (simp add: NewRecoveryGraph_def)
  also have "map (\<lambda>j. if canUseFECPacket ?g v j then addRecoveryEdges ?g [] v j else [])
               [0..<mask_K m] =
     map (\<lambda>j. if parity_usable m v j
               then map (\<lambda>d. unset_bit d v) (filter (\<lambda>d. IsProtected m d j) [0..<mask_N m])
               else []) [0..<mask_K m]"
    using assms(1) by (intro map_cong) (auto simp: canUseFECPacket_small addRecoveryEdges_small)
  also have "concat \<dots> = concat (map (\<lambda>j. map (\<lambda>d. unset_bit d v) (filter (\<lambda>d. IsProtected m d j) [0..<mask_N m]))
               (filter (parity_usable m v) [0..<mask_K m]))"
    by (rule concat_map_if)
  finally show ?thesis .
qed

lemma mset_filter_upt: "mset (filter P [0..<n]) = mset_set {j. j < n \<and> P j}"
proof -
  have "mset (filter P [0..<n]) = filter_mset P (mset_set {0..<n})"
    by simp
  also have "\<dots> = mset_set {j \<in> {0..<n}. P j}"
    by (simp add: filter_mset_mset_set)
  also have "{j \<in> {0..<n}. P j} = {j. j < n \<and> P j}" by auto
  finally show ?thesis .
qed

lemma mset_concat_map: "mset (concat (map f xs)) = (\<Sum>x \<in># mset xs. mset (f x))"
  by (induction xs) auto

lemma GetEdges_small_mset:
  assumes "mask_N m + mask_K m \<le> 62" "0 \<le> v" "v < 2 ^ (mask_N m + mask_K m)"
  shows "mset (GetEdges (NewRecoveryGraph m) v) = spec_edges m v"
proof -
  have "\<And>j. mset (map (\<lambda>d. unset_bit d v) (filter (\<lambda>d. IsProtected m d j) [0..<mask_N m])) =
      image_mset (\<lambda>d. unset_bit d v) (mset_set {d. d < mask_N m \<and> IsProtected m d j})"
    by (simp only: mset_map mset_filter_upt)
  then show ?thesis
    by (simp only: GetEdges_small [OF assms] spec_edges_def mset_concat_map mset_filter_upt)
qed

lemma GetEdges_outside:
  assumes "mask_N m + mask_K m \<le> 62" "v < 0 \<or> 2 ^ (mask_N m + mask_K m) \<le> v"
  shows "GetEdges (NewRecoveryGraph m) v = []"
  using assms by (auto simp: GetEdges_def NewRecoveryGraph_def shl64_one_small)

lemma GetEdges_scenario_11: "GetEdges (NewRecoveryGraph scenario_mask) 11 = [10, 9]"
  by (simp add: GetEdges_def NewRecoveryGraph_def scenario_mask_def shl64_def wrap64_def
      canUseFECPacket_def addRecoveryEdges_def upt_rec)

lemma GetEdges_scenario_3: "GetEdges (NewRecoveryGraph scenario_mask) 3 = []"
  by (simp add: GetEdges_def NewRecoveryGraph_def scenario_mask_def shl64_def wrap64_def
      canUseFECPacket_def addRecoveryEdges_def upt_rec)

lemma bit_nat_imp_le: "bit (n::nat) i \<Longrightarrow> 2 ^ i \<le> n"
  by (rule ccontr) (simp add: bit_iff_odd)

lemma finite_bit_nat [simp]: "finite {i. bit (n::nat) i}"
proof (rule finite_subset)
  show "{i. bit n i} \<subseteq> {..n}"
  proof
    fix i assume "i \<in> {i. bit n i}"
    then have "2 ^ i \<le> n" by (simp add: bit_nat_imp_le)
    moreover have "i < 2 ^ i" by (rule less_exp)
    ultimately have "i \<le> n" by linarith
    then show "i \<in> {..n}" by simp
  qed
qed simp

lemma popcount_eq_card: "popcount n = card {i. bit n i}"
proof (induction n rule: popcount.induct)
  case (1 n)
  show ?case
  proof (cases "n = 0")
    case True
    then show ?thesis by (simp add: popcount.simps)
  next
    case False
    have fin: "finite {i. bit (n div 2) i}" by simp
    have split: "{i. bit n i} = (if odd n then {0} else {}) \<union> Suc ` {i. bit (n div 2) i}"
    proof (rule set_eqI)
      fix i show "i \<in> {i. bit n i} \<longleftrightarrow> i \<in> (if odd n then {0} else {}) \<union> Suc ` {i. bit (n div 2) i}"
        by (cases i) (auto simp: bit_0 bit_Suc)
    qed
    have "card {i. bit n i} = (if odd n then 1 else 0) + card (Suc ` {i. bit (n div 2) i})"
      unfolding split by (subst card_Un_disjoint) (auto simp: fin)
    also have "card (Suc ` {i. bit (n div 2) i}) = card {i. bit (n div 2) i}"
      by (rule card_image) simp
    also have "(if odd n then 1 else 0) = n mod 2" by (auto simp: odd_iff_mod_2_eq_one)
    finally show ?thesis
      using False 1 by (subst popcount.simps) simp
  qed
qed

lemma popcount_unset_bit:
  assumes "bit n p"
  shows "popcount (unset_bit p n) + 1 = popcount n"
proof -
  have "{i. bit (unset_bit p n) i} = {i. bit n i} - {p}"
    by (auto simp: bit_unset_bit_iff)
  moreover have "p \<in> {i. bit n i}" using assms by simp
  moreover have "finite {i. bit n i}" by simp
  ultimately have "card {i. bit (unset_bit p n) i} = card {i. bit n i} - 1"
    and "0 < card {i. bit n i}"
    by (auto simp: card_gt_0_iff)
  then show ?thesis
    by (simp add: popcount_eq_card)
qed

lemma nat_unset_bit: "0 \<le> v \<Longrightarrow> nat (unset_bit p v) = unset_bit p (nat v)"
  by (rule bit_eqI) (auto simp: bit_unset_bit_iff bit_nat_iff)

lemma GetEdges_dest:
  assumes "d \<in> set (GetEdges (NewRecoveryGraph m) v)"
  shows "mask_N m + mask_K m \<le> 62 \<and> 0 \<le> v \<and> v < 2 ^ (mask_N m + mask_K m) \<and>
         (\<exists>p < mask_N m. bit v p \<and> d = unset_bit p v)"
proof -
  let ?g = "NewRecoveryGraph m"
  from assms have rng: "0 \<le> v" "v < numVertices ?g"
    by (auto simp: GetEdges_def split: if_splits)
  then have "0 < shl64 1 (mask_N m + mask_K m)"
    by (simp add: NewRecoveryGraph_def)
  then have small: "mask_N m + mask_K m \<le> 62"
    by (simp add: shl64_one_pos_iff)
  then have lt: "v < 2 ^ (mask_N m + mask_K m)"
    using rng by (simp add: NewRecoveryGraph_def shl64_one_small)
  from assms obtain j p where "p < mask_N m" "IsProtected m p j" "parity_usable m v j"
      "d = unset_bit p v"
    unfolding GetEdges_small [OF small rng(1) lt] by auto
  then show ?thesis
    using small rng(1) lt by (auto simp: parity_usable_def)
qed

lemma GetEdges_dest_less:
  assumes "d \<in> set (GetEdges (NewRecoveryGraph m) v)"
  shows "0 \<le> d" "d < v" "d < NumVertices (NewRecoveryGraph m)"
    "popcount (nat d) + 1 = popcount (nat v)"
proof -
  from GetEdges_dest [OF assms] obtain p where
    small: "mask_N m + mask_K m \<le> 62" and v: "0 \<le> v" "v < 2 ^ (mask_N m + mask_K m)"
    and p: "bit v p" "d = unset_bit p v"
    by auto
  show "0 \<le> d" using v p by simp
  have "d \<le> v" using p by (simp add: unset_bit_less_eq)
  moreover have "d \<noteq> v" using p unset_bit_neq_iff [of p v] by simp
  ultimately show "d < v" by simp
  then show "d < NumVertices (NewRecoveryGraph m)"
    using v small by (simp add: NumVertices_def NewRecoveryGraph_def shl64_one_small)
  have "bit (nat v) p" using p v by (simp add: bit_nat_iff)
  then show "popcount (nat d) + 1 = popcount (nat v)"
    using v p popcount_unset_bit [of "nat v" p] by (simp add: nat_unset_bit)
qed

lemma walk_length:
  "is_walk (NewRecoveryGraph m) (v # ws) \<Longrightarrow> length ws \<le> popcount (nat v)"
proof (induction ws arbitrary: v)
  case Nil
  then show ?case by simp
next
  case (Cons w ws)
  then have "w \<in> set (GetEdges (NewRecoveryGraph m) v)" "is_walk (NewRecoveryGraph m) (w # ws)"
    by auto
  then show ?case
    using Cons.IH [of w] GetEdges_dest_less(4) [of w m v] by simp
qed

lemma walk_last_less:
  "is_walk (NewRecoveryGraph m) (v # ws) \<Longrightarrow> ws \<noteq> [] \<Longrightarrow> last ws < v"
proof (induction ws arbitrary: v)
  case Nil
  then show ?case by simp
next
  case (Cons w ws)
  then have e: "w \<in> set (GetEdges (NewRecoveryGraph m) v)" and
    w: "is_walk (NewRecoveryGraph m) (w # ws)"
    by auto
  show ?case
  proof (cases "ws = []")
    case True
    then show ?thesis using GetEdges_dest_less(2) [OF e] by simp
  next
    case False
    then show ?thesis
      using Cons.IH [OF w] GetEdges_dest_less(2) [OF e] by simp
  qed
qed

text \<open>
  Claim C10.  Every destination \<open>GetEdges\<close> returns for a vertex \<open>v\<close> is \<open>v\<close> with exactly one
  of its set bits cleared, a data bit; it is non-negative, smaller than \<open>v\<close>, inside
  the vertex range, and has one set bit fewer.  Hence a walk from \<open>v\<close> has at most as many
  edges as \<open>v\<close> has set bits, and no walk with an edge comes back to where it started:
  the graph is acyclic.
\<close>

theorem C10_edges_decrease:
  "(\<forall>d \<in> set (GetEdges (NewRecoveryGraph m) v).
      (\<exists>p < mask_N m. bit v p \<and> d = unset_bit p v) \<and> 0 \<le> d \<and> d < v \<and>
      d < NumVertices (NewRecoveryGraph m) \<and> popcount (nat d) + 1 = popcount (nat v)) \<and>
   (\<forall>ws. is_walk (NewRecoveryGraph m) (v # ws) \<longrightarrow> length ws \<le> popcount (nat v)) \<and>
   (\<forall>ws. \<not> is_walk (NewRecoveryGraph m) (v # ws @ [v]))"
proof (intro conjI ballI allI impI)
  fix d assume d: "d \<in> set (GetEdges (NewRecoveryGraph m) v)"
  show "\<exists>p < mask_N m. bit v p \<and> d = unset_bit p v"
    using GetEdges_dest [OF d] by simp
  show "0 \<le> d" "d < v" "d < NumVertices (NewRecoveryGraph m)"
    "popcount (nat d) + 1 = popcount (nat v)"
    using GetEdges_dest_less [OF d] by simp_all
next
  fix ws assume "is_walk (NewRecoveryGraph m) (v # ws)"
  then show "length ws \<le> popcount (nat v)" by (rule walk_length)
next
  fix ws show "\<not> is_walk (NewRecoveryGraph m) (v # ws @ [v])"
    using walk_last_less [of m v "ws @ [v]"] by auto
qed

theorem C10_edges_decrease_witness:
  "set (GetEdges (NewRecoveryGraph scenario_mask) 11) = {10, 9} \<and>
   (\<exists>p < mask_N scenario_mask. bit (11::int) p \<and> (10::int) = unset_bit p 11) \<and>
   (10::int) < NumVertices (NewRecoveryGraph scenario_mask) \<and>
   popcount (nat 10) + 1 = popcount (nat 11) \<and>
   is_walk (NewRecoveryGraph scenario_mask) [11, 10] \<and>
   length [10::int] \<le> popcount (nat 11) \<and>
   \<not> is_walk (NewRecoveryGraph scenario_mask) [11, 10, 11]"
proof -
  have e: "GetEdges (NewRecoveryGraph scenario_mask) 11 = [10, 9]"
    by (rule GetEdges_scenario_11)
  have w: "is_walk (NewRecoveryGraph scenario_mask) [11, 10]"
    by (simp add: e)
  show ?thesis
    using C10_edges_decrease [of scenario_mask 11] e w
    by (auto dest: spec [of _ "[10]"])
qed

text \<open>
  Claim C1, for a pattern of at most 62 packets.  Outside \<open>[0, 2 ^ (N + K))\<close> \<open>GetEdges\<close>
  returns the empty sequence; inside, it returns exactly the multiset \<open>spec_edges\<close>: for
  each usable parity index, one destination per protected data index, the vertex with that
  bit cleared.  In the scenario with \<open>N = 3\<close>, \<open>K = 1\<close> and parity 0 protecting data 0
  and 1, the edges of vertex 11 are 9 and 10, and vertex 3 has none.
\<close>

theorem C1_GetEdges:
  assumes "mask_N m + mask_K m \<le> 62"
  shows "(v < 0 \<or> 2 ^ (mask_N m + mask_K m) \<le> v \<longrightarrow> GetEdges (NewRecoveryGraph m) v = []) \<and>
         (0 \<le> v \<and> v < 2 ^ (mask_N m + mask_K m) \<longrightarrow>
            mset (GetEdges (NewRecoveryGraph m) v) = spec_edges m v) \<and>
         mset (GetEdges (NewRecoveryGraph scenario_mask) 11) = {#9, 10#} \<and>
         GetEdges (NewRecoveryGraph scenario_mask) 3 = []"
  using assms GetEdges_outside [of m v] GetEdges_small_mset [of m v]
  by (simp add: GetEdges_scenario_11 GetEdges_scenario_3)

theorem C1_GetEdges_witness:
  "mask_N scenario_mask + mask_K scenario_mask \<le> 62 \<and>
   (0::int) \<le> 11 \<and> (11::int) < 2 ^ (mask_N scenario_mask + mask_K scenario_mask) \<and>
   mset (GetEdges (NewRecoveryGraph scenario_mask) 11) = spec_edges scenario_mask 11 \<and>
   spec_edges scenario_mask 11 = {#9, 10#} \<and>
   (2::int) ^ (mask_N scenario_mask + mask_K scenario_mask) \<le> 16 \<and>
   GetEdges (NewRecoveryGraph scenario_mask) 16 = []"
proof -
  have s: "mask_N scenario_mask + mask_K scenario_mask \<le> 62"
    by (simp add: scenario_mask_def)
  have a: "mset (GetEdges (NewRecoveryGraph scenario_mask) 11) = spec_edges scenario_mask 11"
    using C1_GetEdges [OF s, of 11] by (simp add: scenario_mask_def)
  have b: "GetEdges (NewRecoveryGraph scenario_mask) 16 = []"
    using C1_GetEdges [OF s, of 16] by (simp add: scenario_mask_def)
  have c: "spec_edges scenario_mask 11 = {#9, 10#}"
    using a by (simp add: GetEdges_scenario_11 add_mset_commute)
  have d: "(11::int) < 2 ^ (mask_N scenario_mask + mask_K scenario_mask)"
    "(2::int) ^ (mask_N scenario_mask + mask_K scenario_mask) \<le> 16"
    by (simp_all add: scenario_mask_def)
  show ?thesis
    using s a b c d by simp
qed

text \<open>
  With 63 packets the vertex count \<open>1 << 63\<close> wraps around to \<open>- 2 ^ 63\<close>, every
  vertex fails the range check, and \<open>GetEdges\<close> returns nothing where the rule of claim
  C1 asks for an edge.
\<close>

theorem C1_GetEdges_counterexample:
  "(0::int) \<le> 3 \<and> (3::int) < 2 ^ (mask_N wide_mask + mask_K wide_mask) \<and>
   GetEdges (NewRecoveryGraph wide_mask) 3 = [] \<and>
   spec_edges wide_mask 3 = {#2#}"
proof -
  have "{j. j < 62 \<and> parity_usable wide_mask 3 j} = {0}"
    by (auto simp: parity_usable_def wide_mask_def bit_Suc bit_0 bit_1_iff)
  moreover have "{d. d < mask_N wide_mask \<and> IsProtected wide_mask d 0} = {0}"
    by (auto simp: wide_mask_def)
  ultimately have "spec_edges wide_mask 3 = {#2#}"
    by (simp add: spec_edges_def) (simp add: wide_mask_def)
  moreover have "GetEdges (NewRecoveryGraph wide_mask) 3 = []"
    by (simp add: GetEdges_def NewRecoveryGraph_def wide_mask_def shl64_def wrap64_def)
  ultimately show ?thesis
    by (simp add: wide_mask_def)
qed

section \<open>The loss models\<close>

subsection \<open>The dynamic program and its cache\<close>

lemma dp_loop_step:
  "computePatternProbabilityDP_loop m pattern (i # rest) dp =
     computePatternProbabilityDP_loop m pattern rest
       (dp[i := dp_step m (pattern AND shl64 1 (i - 1) \<noteq> 0) (dp ! (i - 1))])"
  by (simp add: dp_step_def Let_def)

lemma dp_loop_rows:
  assumes "length dp = n" "b \<le> n" "0 < a" "a \<le> b"
    and "\<forall>j < a. dp ! j = dp_row m pattern initState j"
  shows "\<forall>j < b. computePatternProbabilityDP_loop m pattern [a..<b] dp ! j
           = dp_row m pattern initState j"
  using assms
proof (induction "b - a" arbitrary: a dp)
  case 0
  then show ?case by simp
next
  case (Suc k)
  then have ab: "a < b" by simp
  let ?dp = "dp[a := dp_step m (pattern AND shl64 1 (a - 1) \<noteq> 0) (dp ! (a - 1))]"
  have step: "computePatternProbabilityDP_loop m pattern [a..<b] dp =
      computePatternProbabilityDP_loop m pattern [Suc a..<b] ?dp"
    using ab by (simp only: upt_rec [of a b] if_True dp_loop_step)
  have row_a: "?dp ! a = dp_row m pattern initState a"
  proof -
    obtain a' where a': "a = Suc a'" using Suc.prems(3) by (cases a) auto
    have "dp ! a' = dp_row m pattern initState a'"
      using Suc.prems(5) a' by simp
    moreover have "a < length dp" using ab Suc.prems by simp
    ultimately show ?thesis by (simp add: a')
  qed
  have "\<forall>j < Suc a. ?dp ! j = dp_row m pattern initState j"
  proof (intro allI impI)
    fix j assume "j < Suc a"
    then show "?dp ! j = dp_row m pattern initState j"
      using row_a Suc.prems(5) by (cases "j = a") auto
  qed
  moreover have "k = b - Suc a" using Suc.hyps(2) by simp
  ultimately show ?case
    unfolding step using Suc.prems ab by (intro Suc.hyps(1)) auto
qed

lemma computePatternProbabilityDP_row:
  "computePatternProbabilityDP m pattern len initState =
     fst (dp_row m pattern initState len) + snd (dp_row m pattern initState len)"
proof -
  let ?dp = "(replicate (len + 1) (0::real, 0::real))[0 := (if initState = 0 then (1, 0) else (0, 1))]"
  have "\<forall>j < len + 1. computePatternProbabilityDP_loop m pattern [1..<len + 1] ?dp ! j
           = dp_row m pattern initState j"
    by (rule dp_loop_rows [where n = "len + 1"]) auto
  then show ?thesis
    by (simp add: computePatternProbabilityDP_def)
qed

lemma dp_row_cache [simp]: "dp_row (m\<lparr>cache := c\<rparr>) pattern initState i = dp_row m pattern initState i"
  by (induction i) (simp_all add: dp_step_def)

lemma computePatternProbabilityDP_cache [simp]:
  "computePatternProbabilityDP (m\<lparr>cache := c\<rparr>) = computePatternProbabilityDP m"
  by (intro ext) (simp add: computePatternProbabilityDP_row)

lemma GE_probability_cache [simp]: "GE_probability (m\<lparr>cache := c\<rparr>) = GE_probability m"
  by (intro ext) (simp add: GE_probability_def)

lemma cache_ok_self: "cache m0 = Map.empty \<Longrightarrow> cache_ok m0 m0"
  by (auto simp: cache_ok_def intro!: exI [of _ Map.empty])

lemma cache_ok_ClearCache: "cache_ok m0 m \<Longrightarrow> cache_ok m0 (ClearCache m)"
  by (auto simp: cache_ok_def ClearCache_def intro!: exI [of _ Map.empty])

lemma calculatePatternProbability_ok:
  assumes "cache_ok m0 m"
  shows "fst (calculatePatternProbability m pattern len initState) =
           (if len = 0 then 1 else computePatternProbabilityDP m0 pattern len initState)"
    and "cache_ok m0 (snd (calculatePatternProbability m pattern len initState))"
proof -
  from assms obtain c where m: "m = m0\<lparr>cache := c\<rparr>"
    and c: "\<And>key prob. c key = Some prob \<Longrightarrow>
           prob = computePatternProbabilityDP m0 (key_pattern key) (nat (key_length key))
                    (key_initState key)"
    by (auto simp: cache_ok_def)
  let ?key = "\<lparr>key_pattern = pattern, key_length = int len, key_initState = initState\<rparr>"
  show "fst (calculatePatternProbability m pattern len initState) =
           (if len = 0 then 1 else computePatternProbabilityDP m0 pattern len initState)"
    using c [of ?key] by (auto simp: calculatePatternProbability_def m Let_def split: option.splits)
  show "cache_ok m0 (snd (calculatePatternProbability m pattern len initState))"
  proof (cases "len = 0 \<or> c ?key \<noteq> None")
    case True
    then show ?thesis
      using assms by (auto simp: calculatePatternProbability_def m Let_def split: option.splits)
  next
    case False
    let ?c = "c(?key \<mapsto> computePatternProbabilityDP m0 pattern len initState)"
    have "snd (calculatePatternProbability m pattern len initState) = m0\<lparr>cache := ?c\<rparr>"
      using False by (auto simp: calculatePatternProbability_def m Let_def)
    moreover have "\<forall>key prob. ?c key = Some prob \<longrightarrow>
           prob = computePatternProbabilityDP m0 (key_pattern key) (nat (key_length key))
                    (key_initState key)"
      using c by auto
    ultimately show ?thesis
      unfolding cache_ok_def by blast
  qed
qed

lemma cache_ok_fields:
  assumes "cache_ok m0 m"
  shows "steadyState0 m = steadyState0 m0" "steadyState1 m = steadyState1 m0"
    "Pe0 m = Pe0 m0" "Pe1 m = Pe1 m0" "P01 m = P01 m0" "P10 m = P10 m0"
  using assms by (auto simp: cache_ok_def)

lemma GE_CalculateProbability_ok:
  assumes "cache_ok m0 m"
  shows "fst (GE_CalculateProbability m vertex N) = GE_probability m0 vertex N"
    and "cache_ok m0 (snd (GE_CalculateProbability m vertex N))"
proof -
  obtain prob0 m' where 1: "calculatePatternProbability m vertex (nat N) 0 = (prob0, m')"
    by (cases "calculatePatternProbability m vertex (nat N) 0")
  obtain prob1 m'' where 2: "calculatePatternProbability m' vertex (nat N) 1 = (prob1, m'')"
    by (cases "calculatePatternProbability m' vertex (nat N) 1")
  have ok1: "cache_ok m0 m'"
    using calculatePatternProbability_ok(2) [OF assms, of vertex "nat N" 0] 1 by simp
  have ok2: "cache_ok m0 m''"
    using calculatePatternProbability_ok(2) [OF ok1, of vertex "nat N" 1] 2 by simp
  have p0: "prob0 = (if nat N = 0 then 1 else computePatternProbabilityDP m0 vertex (nat N) 0)"
    using calculatePatternProbability_ok(1) [OF assms, of vertex "nat N" 0] 1 by simp
  have p1: "prob1 = (if nat N = 0 then 1 else computePatternProbabilityDP m0 vertex (nat N) 1)"
    using calculatePatternProbability_ok(1) [OF ok1, of vertex "nat N" 1] 2 by simp
  show "fst (GE_CalculateProbability m vertex N) = GE_probability m0 vertex N"
    using p0 p1 cache_ok_fields [OF ok2]
    by (auto simp: GE_CalculateProbability_def GE_probability_def 1 2)
  show "cache_ok m0 (snd (GE_CalculateProbability m vertex N))"
    using assms ok2 by (auto simp: GE_CalculateProbability_def 1 2)
qed

lemma New_cache_empty [simp]: "cache (NewGilbertElliotLossModel pe0 pe1 p01 p10) = Map.empty"
  by (simp add: NewGilbertElliotLossModel_def Let_def)

lemma model_state_cache_ok:
  "model_state m0 m \<Longrightarrow> cache m0 = Map.empty \<Longrightarrow> cache_ok m0 m"
  by (induction rule: model_state.induct)
    (auto intro: cache_ok_self cache_ok_ClearCache GE_CalculateProbability_ok(2))

subsection \<open>Without transitions the chain is the random model\<close>

lemma countBits_loop_append:
  "countBits_loop vertex (xs @ ys) acc = countBits_loop vertex ys (countBits_loop vertex xs acc)"
proof (induction xs arbitrary: acc)
  case Nil
  then show ?case by (cases acc) simp
next
  case (Cons i xs)
  obtain a b where "acc = (a, b)" by (cases acc)
  with Cons show ?case by simp
qed

lemma countBits_loop_weight:
  "(case countBits_loop vertex [0..<n] (0, 0) of
      (onesCount, zerosCount) \<Rightarrow> p ^ zerosCount * (1 - p) ^ onesCount) =
   bernoulli_weight p vertex n"
proof (induction n)
  case 0
  then show ?case by simp
next
  case (Suc n)
  obtain a b where ab: "countBits_loop vertex [0..<n] (0, 0) = (a, b)"
    by (cases "countBits_loop vertex [0..<n] (0, 0)")
  with Suc show ?case
    by (simp add: countBits_loop_append)
qed

lemma Random_CalculateProbability_weight:
  "Random_CalculateProbability (NewRandomLossModel p) vertex N =
     (if N \<le> 0 then 0 else bernoulli_weight p vertex (nat N))"
  by (simp add: Random_CalculateProbability_def NewRandomLossModel_def countBits_loop_weight)

lemma dp_row_no_transitions:
  assumes "P01 m = 0" "P10 m = 0" "Pe0 m = p" "Pe1 m = p"
  shows "dp_row m vertex initState i =
     (if initState = 0 then (bernoulli_weight p vertex i, 0)
      else (0, bernoulli_weight p vertex i))"
  using assms by (induction i) (auto simp: dp_step_def)

lemma GE_probability_no_transitions:
  "GE_probability (NewGilbertElliotLossModel p p 0 0) vertex N =
     Random_CalculateProbability (NewRandomLossModel p) vertex N"
proof -
  let ?m = "NewGilbertElliotLossModel p p 0 0"
  have f: "P01 ?m = 0" "P10 ?m = 0" "Pe0 ?m = p" "Pe1 ?m = p"
    "steadyState0 ?m = 1 / 2" "steadyState1 ?m = 1 / 2"
    by (simp_all add: NewGilbertElliotLossModel_def)
  show ?thesis
    by (simp add: GE_probability_def Random_CalculateProbability_weight
        computePatternProbabilityDP_row dp_row_no_transitions [OF f(1-4)] f(5,6))
qed

subsection \<open>The probabilities of all patterns add up to 1\<close>

lemma dp_step_mass:
  "fst (dp_step m True prev) + snd (dp_step m True prev) +
   (fst (dp_step m False prev) + snd (dp_step m False prev)) = fst prev + snd prev"
  by (simp add: dp_step_def algebra_simps)

lemma dp_row_low_bits:
  assumes "i \<le> 63" "\<forall>j < i. bit v j = bit v' j"
  shows "dp_row m v initState i = dp_row m v' initState i"
  using assms
proof (induction i)
  case 0
  then show ?case by simp
next
  case (Suc i)
  then have "shl64 1 i = 2 ^ i" by (intro shl64_one_small) simp
  moreover have "bit v i = bit v' i" using Suc.prems by simp
  moreover have "dp_row m v initState i = dp_row m v' initState i"
    using Suc by simp
  ultimately show ?case by (simp add: and_exp_eq_0_iff)
qed

lemma bit_add_exp_low:
  fixes v :: int
  assumes "j < i"
  shows "bit (v + 2 ^ i) j = bit v j"
proof -
  have "take_bit i (v + 2 ^ i) = take_bit i v"
    by (simp add: take_bit_eq_mod)
  then have "bit (take_bit i (v + 2 ^ i)) j = bit (take_bit i v) j" by simp
  then show ?thesis using assms by (simp add: bit_take_bit_iff)
qed

lemma bit_add_exp_top:
  fixes v :: int
  assumes "0 \<le> v" "v < 2 ^ i"
  shows "bit (v + 2 ^ i) i" "\<not> bit v i"
  using assms by (simp_all add: bit_iff_odd)

lemma sum_double_range:
  fixes f :: "int \<Rightarrow> real"
  shows "(\<Sum>v = 0..<2 ^ Suc i. f v) = (\<Sum>v = 0..<2 ^ i. f v + f (v + 2 ^ i))"
proof -
  have "{0..<2 ^ Suc i} = {0..<2 ^ i} \<union> (\<lambda>v. v + 2 ^ i) ` {0..<(2::int) ^ i}"
  proof (rule set_eqI)
    fix x :: int
    show "x \<in> {0..<2 ^ Suc i} \<longleftrightarrow> x \<in> {0..<2 ^ i} \<union> (\<lambda>v. v + 2 ^ i) ` {0..<(2::int) ^ i}"
    proof
      assume x: "x \<in> {0..<2 ^ Suc i}"
      show "x \<in> {0..<2 ^ i} \<union> (\<lambda>v. v + 2 ^ i) ` {0..<(2::int) ^ i}"
      proof (cases "x < 2 ^ i")
        case True
        then show ?thesis using x by simp
      next
        case False
        then have "x - 2 ^ i \<in> {0..<(2::int) ^ i}" using x by simp
        then have "(x - 2 ^ i) + 2 ^ i \<in> (\<lambda>v. v + 2 ^ i) ` {0..<(2::int) ^ i}"
          by (rule imageI)
        then show ?thesis by simp
      qed
    next
      assume "x \<in> {0..<2 ^ i} \<union> (\<lambda>v. v + 2 ^ i) ` {0..<(2::int) ^ i}"
      then show "x \<in> {0..<2 ^ Suc i}" by auto
    qed
  qed
  moreover have "{0..<2 ^ i} \<inter> (\<lambda>v. v + 2 ^ i) ` {0..<(2::int) ^ i} = {}" by auto
  ultimately have "(\<Sum>v = 0..<2 ^ Suc i. f v) =
      (\<Sum>v = 0..<2 ^ i. f v) + (\<Sum>v \<in> (\<lambda>v. v + 2 ^ i) ` {0..<(2::int) ^ i}. f v)"
    by (simp add: sum.union_disjoint)
  also have "(\<Sum>v \<in> (\<lambda>v. v + 2 ^ i) ` {0..<(2::int) ^ i}. f v) = (\<Sum>v = 0..<2 ^ i. f (v + 2 ^ i))"
    by (subst sum.reindex) (auto simp: inj_on_def)
  finally show ?thesis by (simp add: sum.distrib)
qed

lemma dp_row_total_mass:
  assumes "i \<le> 63"
  shows "(\<Sum>v = 0..<2 ^ i. fst (dp_row m v initState i) + snd (dp_row m v initState i)) = 1"
  using assms
proof (induction i)
  case 0
  then show ?case by simp
next
  case (Suc i)
  then have sh: "shl64 1 i = 2 ^ i" by (intro shl64_one_small) simp
  have "\<And>v. v \<in> {0..<(2::int) ^ i} \<Longrightarrow>
      fst (dp_row m v initState (Suc i)) + snd (dp_row m v initState (Suc i)) +
      (fst (dp_row m (v + 2 ^ i) initState (Suc i)) + snd (dp_row m (v + 2 ^ i) initState (Suc i)))
      = fst (dp_row m v initState i) + snd (dp_row m v initState i)"
  proof -
    fix v :: int assume "v \<in> {0..<2 ^ i}"
    then have v: "0 \<le> v" "v < 2 ^ i" by simp_all
    have same: "dp_row m (v + 2 ^ i) initState i = dp_row m v initState i"
      using Suc.prems by (intro dp_row_low_bits) (auto simp: bit_add_exp_low)
    show "fst (dp_row m v initState (Suc i)) + snd (dp_row m v initState (Suc i)) +
      (fst (dp_row m (v + 2 ^ i) initState (Suc i)) + snd (dp_row m (v + 2 ^ i) initState (Suc i)))
      = fst (dp_row m v initState i) + snd (dp_row m v initState i)"
      using dp_step_mass [of m "dp_row m v initState i"] bit_add_exp_top [OF v]
      by (simp add: sh and_exp_eq_0_iff same)
  qed
  then have "(\<Sum>v = 0..<2 ^ Suc i.
       fst (dp_row m v initState (Suc i)) + snd (dp_row m v initState (Suc i))) =
     (\<Sum>v = 0..<2 ^ i. fst (dp_row m v initState i) + snd (dp_row m v initState i))"
    unfolding sum_double_range by (intro sum.cong) auto
  then show ?case using Suc by simp
qed

lemma steady_state_sum:
  "steadyState0 (NewGilbertElliotLossModel pe0 pe1 p01 p10) +
   steadyState1 (NewGilbertElliotLossModel pe0 pe1 p01 p10) = 1"
  by (simp add: NewGilbertElliotLossModel_def Let_def add_divide_distrib [symmetric])

lemma GE_probability_sum:
  assumes "1 \<le> N" "N \<le> 63"
  shows "(\<Sum>v = 0..<2 ^ nat N. GE_probability (NewGilbertElliotLossModel pe0 pe1 p01 p10) v N) = 1"
proof -
  let ?m = "NewGilbertElliotLossModel pe0 pe1 p01 p10"
  have n: "nat N \<le> 63" using assms by simp
  have "(\<Sum>v = 0..<2 ^ nat N. GE_probability ?m v N) =
      steadyState0 ?m * (\<Sum>v = 0..<2 ^ nat N. computePatternProbabilityDP ?m v (nat N) 0) +
      steadyState1 ?m * (\<Sum>v = 0..<2 ^ nat N. computePatternProbabilityDP ?m v (nat N) 1)"
    using assms by (simp add: GE_probability_def sum.distrib sum_distrib_left)
  also have "\<dots> = steadyState0 ?m + steadyState1 ?m"
    by (simp only: computePatternProbabilityDP_row dp_row_total_mass [OF n] mult_1_right)
  finally show ?thesis by (simp add: steady_state_sum)
qed

subsection \<open>The claims about the loss models\<close>

lemma GE_CalculateProbability_twice:
  "GE_CalculateProbability (snd (GE_CalculateProbability m vertex N)) vertex N =
     GE_CalculateProbability m vertex N"
  by (auto simp: GE_CalculateProbability_def calculatePatternProbability_def Let_def
      split: option.splits prod.splits)

lemma GE_CalculateProbability_cached:
  assumes "0 < N"
  shows "cache (snd (GE_CalculateProbability m vertex N))
           \<lparr>key_pattern = vertex, key_length = N, key_initState = 0\<rparr> \<noteq> None"
    and "cache (snd (GE_CalculateProbability m vertex N))
           \<lparr>key_pattern = vertex, key_length = N, key_initState = 1\<rparr> \<noteq> None"
  using assms
  by (auto simp: GE_CalculateProbability_def calculatePatternProbability_def Let_def
      split: option.splits prod.splits)

text \<open>
  Claim C8.  The constructor stores \<open>\<pi>0 = p10 / (p01 + p10)\<close> and
  \<open>\<pi>1 = p01 / (p01 + p10)\<close> when \<open>p01 + p10 > 0\<close>, and \<open>\<pi>0 = \<pi>1 = 0.5\<close> when
  \<open>p01 + p10 = 0\<close>; in every case they add up to 1, and
  \<open>GetAverageLossProbability\<close> returns \<open>\<pi>0 * pe0 + \<pi>1 * pe1\<close>.
\<close>

theorem C8_steady_state:
  assumes "0 \<le> pe0" "pe0 \<le> 1" "0 \<le> pe1" "pe1 \<le> 1" "0 \<le> p01" "p01 \<le> 1" "0 \<le> p10" "p10 \<le> 1"
  shows "(p01 + p10 > 0 \<longrightarrow>
            GetSteadyStateProbabilities (NewGilbertElliotLossModel pe0 pe1 p01 p10) =
              (p10 / (p01 + p10), p01 / (p01 + p10))) \<and>
         (p01 + p10 = 0 \<longrightarrow>
            GetSteadyStateProbabilities (NewGilbertElliotLossModel pe0 pe1 p01 p10) = (0.5, 0.5)) \<and>
         fst (GetSteadyStateProbabilities (NewGilbertElliotLossModel pe0 pe1 p01 p10)) +
         snd (GetSteadyStateProbabilities (NewGilbertElliotLossModel pe0 pe1 p01 p10)) = 1 \<and>
         GE_GetAverageLossProbability (NewGilbertElliotLossModel pe0 pe1 p01 p10) =
           fst (GetSteadyStateProbabilities (NewGilbertElliotLossModel pe0 pe1 p01 p10)) * pe0 +
           snd (GetSteadyStateProbabilities (NewGilbertElliotLossModel pe0 pe1 p01 p10)) * pe1"
proof -
  let ?m = "NewGilbertElliotLossModel pe0 pe1 p01 p10"
  have "Pe0 ?m = pe0" "Pe1 ?m = pe1"
    by (simp_all add: NewGilbertElliotLossModel_def Let_def)
  moreover have "p01 + p10 > 0 \<Longrightarrow>
      steadyState0 ?m = p10 / (p01 + p10) \<and> steadyState1 ?m = p01 / (p01 + p10)"
    by (simp add: NewGilbertElliotLossModel_def Let_def)
  moreover have "p01 + p10 = 0 \<Longrightarrow> steadyState0 ?m = 0.5 \<and> steadyState1 ?m = 0.5"
    by (simp add: NewGilbertElliotLossModel_def Let_def)
  ultimately show ?thesis
    using steady_state_sum [of pe0 pe1 p01 p10]
    by (simp add: GetSteadyStateProbabilities_def GE_GetAverageLossProbability_def)
qed

theorem C8_steady_state_witness:
  "GetSteadyStateProbabilities (NewGilbertLossModel 1 (1 / 10) (9 / 10)) = (9 / 10, 1 / 10) \<and>
   GE_GetAverageLossProbability (NewGilbertLossModel 1 (1 / 10) (9 / 10)) = 1 / 10 \<and>
   GetSteadyStateProbabilities (NewGilbertElliotLossModel (1 / 5) (1 / 2) 0 0) = (1 / 2, 1 / 2) \<and>
   GE_GetAverageLossProbability (NewGilbertElliotLossModel (1 / 5) (1 / 2) 0 0) = 7 / 20"
  using C8_steady_state [of 0 1 "1 / 10" "9 / 10"] C8_steady_state [of "1 / 5" "1 / 2" 0 0]
  by (simp add: NewGilbertLossModel_def)

text \<open>
  Claim C9.  In any state of a model, a second call of \<open>CalculateProbability\<close> with the
  same arguments returns the same result, served from the cache: after the first call both
  keys are cached, and the second call leaves the model as it found it.  A call after
  \<open>ClearCache\<close> returns that result again, and so does a call on the freshly constructed
  model: the cache never changes the value returned.
\<close>

theorem C9_cache_transparent:
  assumes "model_state (NewGilbertElliotLossModel pe0 pe1 p01 p10) m"
  shows "GE_CalculateProbability (snd (GE_CalculateProbability m vertex N)) vertex N =
           GE_CalculateProbability m vertex N \<and>
         (0 < N \<longrightarrow>
            cache (snd (GE_CalculateProbability m vertex N))
              \<lparr>key_pattern = vertex, key_length = N, key_initState = 0\<rparr> \<noteq> None \<and>
            cache (snd (GE_CalculateProbability m vertex N))
              \<lparr>key_pattern = vertex, key_length = N, key_initState = 1\<rparr> \<noteq> None) \<and>
         fst (GE_CalculateProbability (ClearCache (snd (GE_CalculateProbability m vertex N))) vertex N) =
           fst (GE_CalculateProbability m vertex N) \<and>
         fst (GE_CalculateProbability m vertex N) =
           fst (GE_CalculateProbability (NewGilbertElliotLossModel pe0 pe1 p01 p10) vertex N)"
proof -
  let ?m0 = "NewGilbertElliotLossModel pe0 pe1 p01 p10"
  have ok: "cache_ok ?m0 m"
    using assms by (rule model_state_cache_ok) simp
  have ok0: "cache_ok ?m0 ?m0"
    by (rule cache_ok_self) simp
  have ok': "cache_ok ?m0 (ClearCache (snd (GE_CalculateProbability m vertex N)))"
    by (intro cache_ok_ClearCache GE_CalculateProbability_ok(2) ok)
  show ?thesis
    using GE_CalculateProbability_cached [of N m vertex]
    by (simp add: GE_CalculateProbability_twice GE_CalculateProbability_ok(1) [OF ok]
        GE_CalculateProbability_ok(1) [OF ok0] GE_CalculateProbability_ok(1) [OF ok'])
qed

theorem C9_cache_transparent_witness:
  "model_state (NewGilbertLossModel 1 (1 / 10) (9 / 10))
     (snd (GE_CalculateProbability (NewGilbertLossModel 1 (1 / 10) (9 / 10)) 6 3)) \<and>
   fst (GE_CalculateProbability
          (snd (GE_CalculateProbability (NewGilbertLossModel 1 (1 / 10) (9 / 10)) 6 3)) 5 3) =
   fst (GE_CalculateProbability (NewGilbertLossModel 1 (1 / 10) (9 / 10)) 5 3) \<and>
   fst (GE_CalculateProbability (ClearCache
          (snd (GE_CalculateProbability (NewGilbertLossModel 1 (1 / 10) (9 / 10)) 5 3))) 5 3) =
   fst (GE_CalculateProbability (NewGilbertLossModel 1 (1 / 10) (9 / 10)) 5 3)"
proof -
  let ?m0 = "NewGilbertElliotLossModel 0 1 (1 / 10) (9 / 10)"
  have s: "model_state ?m0 (snd (GE_CalculateProbability ?m0 6 3))"
    by (intro model_state.calculated model_state.constructed)
  show ?thesis
    using s C9_cache_transparent [OF s, of 5 3]
      C9_cache_transparent [OF model_state.constructed, of 0 1 "1 / 10" "9 / 10" 5 3]
    by (simp add: NewGilbertLossModel_def)
qed

text \<open>
  Claim C7.  A model constructed with \<open>pe0 = pe1 = p\<close> and \<open>p01 = p10 = 0\<close> gives every
  vertex, for every \<open>N\<close>, the probability the random model with \<open>p\<close> gives it (in exact
  arithmetic).
\<close>

theorem C7_no_transitions_is_random:
  assumes "0 \<le> p" "p \<le> 1" "model_state (NewGilbertElliotLossModel p p 0 0) m"
  shows "fst (GE_CalculateProbability m vertex N) =
           Random_CalculateProbability (NewRandomLossModel p) vertex N"
proof -
  have "cache_ok (NewGilbertElliotLossModel p p 0 0) m"
    using assms(3) by (rule model_state_cache_ok) simp
  then show ?thesis
    by (simp add: GE_CalculateProbability_ok(1) GE_probability_no_transitions)
qed

theorem C7_no_transitions_is_random_witness:
  "fst (GE_CalculateProbability (NewGilbertElliotLossModel (1 / 4) (1 / 4) 0 0) 5 3) = 9 / 64 \<and>
   Random_CalculateProbability (NewRandomLossModel (1 / 4)) 5 3 = 9 / 64"
proof -
  have "Random_CalculateProbability (NewRandomLossModel (1 / 4)) 5 3 = 9 / 64"
    by (simp add: Random_CalculateProbability_def NewRandomLossModel_def shl64_def wrap64_def
        upt_rec power_divide)
  then show ?thesis
    using C7_no_transitions_is_random [OF _ _ model_state.constructed, of "1 / 4" 5 3]
    by simp
qed

text \<open>
  Claim C5.  For \<open>1 \<le> N \<le> 63\<close>, the vertices \<open>0, \<dots>, 2 ^ N - 1\<close> being values of
  Go's \<open>int\<close>, the probabilities a model gives them add up to 1 (in exact arithmetic):
  for the Gilbert-Elliott model, in whatever state \<open>st v\<close> each call finds it, and for
  the random model.
\<close>

theorem C5_probabilities_sum_to_one:
  assumes "1 \<le> N" "N \<le> 63"
    and "0 \<le> pe0" "pe0 \<le> 1" "0 \<le> pe1" "pe1 \<le> 1" "0 \<le> p01" "p01 \<le> 1" "0 \<le> p10" "p10 \<le> 1"
    and "0 \<le> p" "p \<le> 1"
    and "\<forall>v. model_state (NewGilbertElliotLossModel pe0 pe1 p01 p10) (st v)"
  shows "(\<Sum>v = 0..<2 ^ nat N. fst (GE_CalculateProbability (st v) v N)) = 1 \<and>
         (\<Sum>v = 0..<2 ^ nat N. Random_CalculateProbability (NewRandomLossModel p) v N) = 1"
proof -
  let ?m0 = "NewGilbertElliotLossModel pe0 pe1 p01 p10"
  have "\<And>v. fst (GE_CalculateProbability (st v) v N) = GE_probability ?m0 v N"
    using assms(13) by (intro GE_CalculateProbability_ok(1) model_state_cache_ok) simp_all
  then have "(\<Sum>v = 0..<2 ^ nat N. fst (GE_CalculateProbability (st v) v N)) = 1"
    using GE_probability_sum [OF assms(1,2), of pe0 pe1 p01 p10] by simp
  moreover have "(\<Sum>v = 0..<2 ^ nat N. Random_CalculateProbability (NewRandomLossModel p) v N) = 1"
    using GE_probability_sum [OF assms(1,2), of p p 0 0]
    by (simp add: GE_probability_no_transitions)
  ultimately show ?thesis by simp
qed

theorem C5_probabilities_sum_to_one_witness:
  "(\<Sum>v = 0..<2 ^ nat 2.
      fst (GE_CalculateProbability (NewGilbertLossModel 1 (1 / 10) (9 / 10)) v 2)) = 1 \<and>
   (\<Sum>v = 0..<2 ^ nat 2. Random_CalculateProbability (NewRandomLossModel (1 / 4)) v 2) = 1"
  using C5_probabilities_sum_to_one [of 2 0 1 "1 / 10" "9 / 10" "1 / 4"
      "\<lambda>v. NewGilbertElliotLossModel 0 1 (1 / 10) (9 / 10)"]
  by (simp add: NewGilbertLossModel_def model_state.constructed)

section \<open>The enumeration of combinations\<close>

subsection \<open>Counting bits\<close>

lemma popcount_0 [simp]: "popcount 0 = 0"
  by (simp add: popcount.simps)

lemma popcount_rec: "popcount n = n mod 2 + popcount (n div 2)"
  by (cases "n = 0") (simp_all add: popcount.simps [of n])

lemma popcount_double [simp]: "popcount (2 * n) = popcount n"
  by (subst popcount_rec) simp

lemma popcount_double_plus1 [simp]: "popcount (Suc (2 * n)) = Suc (popcount n)"
  by (subst popcount_rec) simp

lemma popcount_shift_add:
  "x < 2 ^ n \<Longrightarrow> popcount (2 ^ n * a + x) = popcount a + popcount x"
proof (induction n arbitrary: x)
  case 0
  then show ?case by simp
next
  case (Suc n)
  have "x div 2 < 2 ^ n" using Suc.prems by simp
  then have IH: "popcount (2 ^ n * a + x div 2) = popcount a + popcount (x div 2)"
    by (rule Suc.IH)
  have e: "2 ^ Suc n * a + x = 2 * (2 ^ n * a) + x" by simp
  have "(2 ^ Suc n * a + x) div 2 = 2 ^ n * a + x div 2"
    unfolding e by simp
  moreover have "(2 ^ Suc n * a + x) mod 2 = x mod 2"
    unfolding e by simp
  ultimately have "popcount (2 ^ Suc n * a + x) = x mod 2 + popcount (2 ^ n * a + x div 2)"
    by (subst popcount_rec) (simp only:)
  also have "\<dots> = popcount a + (x mod 2 + popcount (x div 2))"
    using IH by simp
  also have "x mod 2 + popcount (x div 2) = popcount x"
    by (rule popcount_rec [symmetric])
  finally show ?case .
qed

lemma popcount_shift [simp]: "popcount (2 ^ n * a) = popcount a"
  using popcount_shift_add [of 0 n a] by simp

lemma popcount_ones [simp]: "popcount (2 ^ m - 1) = m"
proof (induction m)
  case 0
  then show ?case by simp
next
  case (Suc m)
  define E where "E = (2::nat) ^ m"
  have "1 \<le> E" by (simp add: E_def)
  then have "2 * E - 1 = Suc (2 * (E - 1))" by arith
  then have "(2::nat) ^ Suc m - 1 = Suc (2 * (2 ^ m - 1))"
    by (simp add: E_def)
  then show ?case using Suc by simp
qed

text \<open>The smallest number with \<open>p\<close> set bits is \<open>2 ^ p - 1\<close>.\<close>

lemma popcount_min: "2 ^ popcount x \<le> x + 1"
proof (induction x rule: popcount.induct)
  case (1 n)
  show ?case
  proof (cases "n = 0")
    case True
    then show ?thesis by simp
  next
    case False
    then have IH: "2 ^ popcount (n div 2) \<le> n div 2 + 1" by (rule 1)
    have "(2::nat) ^ popcount n = 2 ^ (n mod 2) * 2 ^ popcount (n div 2)"
      by (subst popcount_rec) (simp add: power_add)
    also have "\<dots> \<le> 2 ^ (n mod 2) * (n div 2 + 1)"
      using IH by (intro mult_le_mono2)
    also have "\<dots> \<le> n + 1"
      by (cases "even n") (auto simp: odd_iff_mod_2_eq_one elim!: oddE)
    finally show ?thesis .
  qed
qed

text \<open>The largest number below \<open>2 ^ n\<close> with \<open>p\<close> set bits is \<open>2 ^ n - 2 ^ (n - p)\<close>.\<close>

lemma popcount_max:
  "x < 2 ^ n \<Longrightarrow> popcount x \<le> n \<and> x + 2 ^ (n - popcount x) \<le> 2 ^ n"
proof (induction n arbitrary: x)
  case 0
  then show ?case by simp
next
  case (Suc n)
  let ?q = "x div 2"
  have q: "?q < 2 ^ n" using Suc.prems by simp
  from Suc.IH [OF q] have p: "popcount ?q \<le> n" and le: "?q + 2 ^ (n - popcount ?q) \<le> 2 ^ n"
    by simp_all
  have pc: "popcount x = x mod 2 + popcount ?q" by (rule popcount_rec)
  show ?case
  proof (cases "even x")
    case True
    then have "popcount x = popcount ?q" using pc by simp
    moreover have "Suc n - popcount ?q = Suc (n - popcount ?q)" using p by simp
    moreover have "x = 2 * ?q" using True by simp
    ultimately show ?thesis using p le by simp
  next
    case False
    then have "popcount x = Suc (popcount ?q)" using pc by (simp add: odd_iff_mod_2_eq_one)
    moreover have "x = 2 * ?q + 1" using False by (simp add: odd_iff_mod_2_eq_one)
    moreover have "(1::nat) \<le> 2 ^ (n - popcount ?q)" by simp
    moreover have "(2::nat) ^ (Suc n - Suc (popcount ?q)) = 2 ^ (n - popcount ?q)" by simp
    moreover have "(2::nat) ^ Suc n = 2 * 2 ^ n" by simp
    ultimately show ?thesis using p le by (simp only:) linarith
  qed
qed

subsection \<open>The bit operations of one step\<close>

lemma and_neg_odd:
  fixes c :: int
  assumes "odd c"
  shows "c AND - c = 1"
proof -
  from assms obtain u where c: "c = 2 * u + 1" by (elim oddE)
  have "(- c) div 2 = NOT u" by (simp add: c not_int_def)
  moreover have "c div 2 = u" by (simp add: c)
  moreover have "odd (- c)" using assms by simp
  ultimately have "c AND - c = 1 + 2 * (u AND NOT u)"
    using assms by (subst and_int_rec) simp
  then show ?thesis by simp
qed

lemma and_neg_shift_odd:
  fixes q :: int
  assumes "odd q"
  shows "(2 ^ j * q) AND - (2 ^ j * q) = 2 ^ j"
proof -
  have "(2 ^ j * q) AND - (2 ^ j * q) = push_bit j q AND push_bit j (- q)"
    by (simp add: push_bit_eq_mult mult.commute)
  also have "\<dots> = push_bit j (q AND - q)"
    by (simp add: push_bit_and)
  also have "\<dots> = 2 ^ j"
    using assms by (simp add: and_neg_odd push_bit_eq_mult)
  finally show ?thesis .
qed

lemma bit_below_exp:
  fixes x :: int
  assumes "0 \<le> x" "x < 2 ^ n" "bit x i"
  shows "i < n"
proof -
  have "take_bit n x = x" using assms by (simp add: take_bit_int_eq_self)
  then have "bit (take_bit n x) i" using assms by simp
  then show ?thesis by (simp add: bit_take_bit_iff)
qed

lemma bit_shift_add:
  fixes x :: int
  assumes "0 \<le> x" "x < 2 ^ n"
  shows "bit (2 ^ n * a + x) i = (if i < n then bit x i else bit a (i - n))"
proof -
  have "2 ^ n * a + x = push_bit n a + x" by (simp add: push_bit_eq_mult mult.commute)
  also have "\<dots> = push_bit n a OR x"
    using assms by (intro disjunctive_add) (auto simp: bit_push_bit_iff dest: bit_below_exp)
  finally show ?thesis
    using assms by (auto simp: bit_or_iff bit_push_bit_iff dest: bit_below_exp)
qed

lemma shift_add_xor:
  fixes x y :: int
  assumes "0 \<le> x" "x < 2 ^ n" "0 \<le> y" "y < 2 ^ n"
  shows "(2 ^ n * a + x) XOR (2 ^ n * a + y) = x XOR y"
proof (rule bit_eqI)
  fix i
  show "bit ((2 ^ n * a + x) XOR (2 ^ n * a + y)) i = bit (x XOR y) i"
    using assms bit_below_exp [of x n i] bit_below_exp [of y n i]
    by (auto simp: bit_xor_iff bit_shift_add)
qed

lemma shift_add_or:
  fixes x :: int
  assumes "0 \<le> x" "x < 2 ^ n"
  shows "(2 ^ n * a) OR x = 2 ^ n * a + x"
proof -
  have "2 ^ n * a + x = push_bit n a + x" by (simp add: push_bit_eq_mult mult.commute)
  also have "\<dots> = push_bit n a OR x"
    using assms by (intro disjunctive_add) (auto simp: bit_push_bit_iff dest: bit_below_exp)
  finally show ?thesis by (simp add: push_bit_eq_mult mult.commute)
qed

lemma ones_xor_exp:
  "((2::int) ^ m - 1) XOR 2 ^ m = 2 ^ Suc m - 1"
proof -
  have "((2::int) ^ m - 1) XOR 2 ^ m = mask m XOR push_bit m 1"
    by (simp add: mask_eq_exp_minus_1)
  also have "\<dots> = mask (Suc m)"
    by (rule bit_eqI) (auto simp: bit_xor_iff bit_mask_iff bit_push_bit_iff bit_1_iff bit_exp_iff)
  finally show ?thesis by (simp add: mask_eq_exp_minus_1)
qed

subsection \<open>The next combination\<close>

lemma exp_odd_decomp:
  fixes c :: nat
  assumes "0 < c"
  shows "\<exists>j q. c = 2 ^ j * q \<and> odd q"
  using assms
proof (induction c rule: less_induct)
  case (less c)
  show ?case
  proof (cases "odd c")
    case True
    then have "c = 2 ^ 0 * c \<and> odd c" by simp
    then show ?thesis by blast
  next
    case False
    then have "even c" by simp
    then obtain c' where c': "c = 2 * c'" by (elim evenE)
    then have "c' < c" "0 < c'" using less.prems by simp_all
    from less.IH [OF this] obtain j q where "c' = 2 ^ j * q" "odd q" by blast
    then have "c = 2 ^ Suc j * q \<and> odd q" using c' by simp
    then show ?thesis by blast
  qed
qed

text \<open>
  A positive number is a block of \<open>m\<close> ones above \<open>j\<close> zeros, with a zero above the
  block and any bits \<open>a\<close> above that.
\<close>

lemma gosper_decomp:
  fixes c :: nat
  assumes "0 < c"
  shows "\<exists>j m a. 0 < m \<and> c + 2 ^ j = 2 ^ (j + m) * (2 * a + 1)"
proof -
  from exp_odd_decomp [OF assms] obtain j q where c: "c = 2 ^ j * q" and q: "odd q" by blast
  have "0 < q + 1" by simp
  from exp_odd_decomp [OF this] obtain m r where r: "q + 1 = 2 ^ m * r" and "odd r" by blast
  have m: "0 < m"
  proof (rule ccontr)
    assume "\<not> 0 < m"
    then have "q + 1 = r" using r by simp
    moreover have "even (q + 1)" using q by simp
    ultimately show False using \<open>odd r\<close> by simp
  qed
  from \<open>odd r\<close> obtain a where a: "r = 2 * a + 1" by (elim oddE)
  have "c + 2 ^ j = 2 ^ j * (q + 1)" using c by simp
  also have "\<dots> = 2 ^ (j + m) * (2 * a + 1)" using r a by (simp add: power_add algebra_simps)
  finally show ?thesis using m by blast
qed

lemma ones_Suc: "ones m + 1 = 2 ^ m"
  by (simp add: ones_def)

lemma ones_less: "ones m < 2 ^ m"
  by (simp add: ones_def)

lemma popcount_ones' [simp]: "popcount (ones m) = m"
  unfolding ones_def by (rule popcount_ones)

lemma gosper_popcount:
  fixes a :: nat
  assumes "0 < m"
  shows "popcount (2 ^ j * (2 ^ Suc m * a + ones m)) = popcount a + m"
    and "popcount (2 ^ (j + m) * (2 * a + 1) + ones (m - 1)) = popcount a + m"
proof -
  have "ones m < 2 ^ Suc m"
    by (rule less_trans [OF ones_less]) simp
  then have "popcount (2 ^ Suc m * a + ones m) = popcount a + popcount (ones m)"
    by (rule popcount_shift_add)
  then show "popcount (2 ^ j * (2 ^ Suc m * a + ones m)) = popcount a + m"
    by (simp only: popcount_shift popcount_ones')
  have "ones (m - 1) < 2 ^ (m - 1)" by (rule ones_less)
  also have "(2::nat) ^ (m - 1) \<le> 2 ^ (j + m)" by (intro power_increasing) auto
  finally have "popcount (2 ^ (j + m) * (2 * a + 1) + ones (m - 1)) =
      popcount (2 * a + 1) + popcount (ones (m - 1))"
    by (rule popcount_shift_add)
  then show "popcount (2 ^ (j + m) * (2 * a + 1) + ones (m - 1)) = popcount a + m"
    using assms by (simp only: popcount_ones') simp
qed

lemma gosper_greater:
  fixes a :: nat
  shows "2 ^ j * (2 ^ Suc m * a + ones m) + 2 ^ j = 2 ^ (j + m) * (2 * a + 1)"
proof -
  have "2 ^ j * (2 ^ Suc m * a + ones m) + 2 ^ j = 2 ^ j * (2 ^ Suc m * a + (ones m + 1))"
    by (simp add: algebra_simps)
  also have "\<dots> = 2 ^ (j + m) * (2 * a + 1)"
    by (simp only: ones_Suc) (simp add: power_add algebra_simps)
  finally show ?thesis .
qed

lemma gosper_shape:
  fixes c :: nat
  assumes "0 < c"
  shows "\<exists>j m a. 0 < m \<and> c = 2 ^ j * (2 ^ Suc m * a + ones m)"
proof -
  from gosper_decomp [OF assms] obtain j m a where
    m: "0 < m" and c: "c + 2 ^ j = 2 ^ (j + m) * (2 * a + 1)" by blast
  have "c + 2 ^ j = 2 ^ j * (2 ^ Suc m * a + ones m) + 2 ^ j"
    using c by (simp only: gosper_greater)
  then have "c = 2 ^ j * (2 ^ Suc m * a + ones m)" by simp
  then show ?thesis using m by blast
qed

lemma gosper_between:
  fixes a x :: nat
  assumes m: "0 < m"
    and lo: "2 ^ j * (2 ^ Suc m * a + ones m) < x"
    and hi: "x < 2 ^ (j + m) * (2 * a + 1) + ones (m - 1)"
  shows "popcount x \<noteq> popcount a + m"
proof
  assume pc: "popcount x = popcount a + m"
  define h where "h = j + m"
  define q where "q = x div 2 ^ h"
  define x' where "x' = x mod 2 ^ h"
  have x: "x = 2 ^ h * q + x'" by (simp add: q_def x'_def)
  have x': "x' < 2 ^ h" by (simp add: x'_def)
  have pcx: "popcount x = popcount q + popcount x'"
    unfolding x using x' by (rule popcount_shift_add)
  have c_eq: "2 ^ j * (2 ^ Suc m * a + ones m) + 2 ^ j = 2 ^ h * (2 * a + 1)"
    unfolding h_def by (rule gosper_greater)
  have q_lo: "2 * a \<le> q"
  proof (rule ccontr)
    assume "\<not> 2 * a \<le> q"
    then have "q + 1 \<le> 2 * a" by simp
    then have "2 ^ h * (q + 1) \<le> 2 ^ h * (2 * a)" by (intro mult_le_mono2)
    moreover have "x < 2 ^ h * (q + 1)" using x x' by simp
    moreover have "2 ^ h * (2 * a) \<le> 2 ^ j * (2 ^ Suc m * a + ones m)"
    proof -
      have "2 ^ h * (2 * a) = 2 ^ j * (2 ^ Suc m * a)"
        by (simp add: h_def power_add)
      also have "\<dots> \<le> 2 ^ j * (2 ^ Suc m * a + ones m)"
        by (intro mult_le_mono2) simp
      finally show ?thesis .
    qed
    ultimately show False using lo by simp
  qed
  have q_hi: "q \<le> 2 * a + 1"
  proof (rule ccontr)
    assume "\<not> q \<le> 2 * a + 1"
    then have "2 * a + 2 \<le> q" by simp
    then have "2 ^ h * (2 * a + 2) \<le> 2 ^ h * q" by (intro mult_le_mono2)
    moreover have "ones (m - 1) < 2 ^ h"
      by (rule less_le_trans [OF ones_less]) (auto simp: h_def intro: power_increasing)
    ultimately have "2 ^ (j + m) * (2 * a + 1) + ones (m - 1) < 2 ^ h * q"
      by (simp add: h_def algebra_simps)
    then show False using hi x by simp
  qed
  from q_lo q_hi consider "q = 2 * a" | "q = 2 * a + 1" by linarith
  then show False
  proof cases
    case 1
    then have "popcount x' = m" using pc pcx by simp
    with popcount_max [OF x'] have "x' + 2 ^ (h - m) \<le> 2 ^ h" by simp
    then have "x' + 2 ^ j \<le> 2 ^ h" by (simp add: h_def)
    then have "x + 2 ^ j \<le> 2 ^ h * (2 * a + 1)" using x 1 by simp
    then show False using lo c_eq by simp
  next
    case 2
    then have "popcount x' = m - 1" using pc pcx m by simp
    with popcount_min [of x'] have "2 ^ (m - 1) \<le> x' + 1" by simp
    then have "ones (m - 1) \<le> x'" by (simp add: ones_def)
    then show False using hi x 2 by (simp add: h_def)
  qed
qed

subsection \<open>One step of the loop, within 62 bits\<close>

lemma int_ones: "int (ones m) = 2 ^ m - 1"
  by (simp add: ones_def of_nat_diff)

lemma quo64_exact:
  assumes "0 < b" "0 \<le> q" "q < 2 ^ 63"
  shows "quo64 (b * q) b = q"
proof -
  have "sgn (b * q) * sgn b * (\<bar>b * q\<bar> div \<bar>b\<bar>) = q"
    using assms by (cases "q = 0") (simp_all add: sgn_mult abs_mult)
  then have "quo64 (b * q) b = wrap64 q"
    by (simp only: quo64_def)
  then show ?thesis
    using assms by (simp add: wrap64_id)
qed

lemma shr64_ones: "shr64 (2 ^ Suc m - 1) 2 = 2 ^ (m - 1) - 1"
proof -
  have "shr64 (2 ^ Suc m - 1) 2 = drop_bit 2 (mask (Suc m) :: int)"
    by (simp add: shr64_def mask_eq_exp_minus_1)
  also have "\<dots> = mask (Suc m - 2)"
    by (rule drop_bit_mask_eq)
  finally show ?thesis by (simp add: mask_eq_exp_minus_1)
qed

lemma gosper_c_int:
  fixes a :: nat
  shows "int (2 ^ j * (2 ^ Suc m * a + ones m)) = 2 ^ j * (2 ^ Suc m * int a + (2 ^ m - 1))"
  by (simp only: of_nat_mult of_nat_add of_nat_power of_nat_numeral int_ones)

lemma gosper_t_int:
  fixes a :: nat
  shows "int (2 ^ (j + m) * (2 * a + 1)) = 2 ^ (j + m) * (2 * int a + 1)"
  by (simp only: of_nat_mult of_nat_add of_nat_power of_nat_numeral of_nat_1)

lemma gosper_c_plus:
  "(2::int) ^ j * (2 ^ Suc m * A + (2 ^ m - 1)) + 2 ^ j = 2 ^ (j + m) * (2 * A + 1)"
  by (simp add: power_add algebra_simps)

lemma gosper_c_form:
  "(2::int) ^ j * (2 ^ Suc m * A + (2 ^ m - 1)) = 2 ^ (j + m + 1) * A + 2 ^ j * (2 ^ m - 1)"
  by (simp add: power_add algebra_simps)

lemma gosper_t_form:
  "(2::int) ^ (j + m) * (2 * A + 1) = 2 ^ (j + m + 1) * A + 2 ^ (j + m)"
  by (simp add: power_add algebra_simps)

lemma exp_mult_xor: "(2::int) ^ j * x XOR 2 ^ j * y = 2 ^ j * (x XOR y)"
  using push_bit_xor [of j x y] by (simp add: push_bit_eq_mult mult.commute)

lemma gosper_step_int:
  fixes A :: int
  assumes m: "0 < m" and A: "0 \<le> A"
    and c: "c = 2 ^ j * (2 ^ Suc m * A + (2 ^ m - 1))"
    and small: "c < 2 ^ 62"
  shows "c AND neg64 c = 2 ^ j"
    and "add64 c (2 ^ j) = 2 ^ (j + m) * (2 * A + 1)"
    and "2 ^ (j + m) * (2 * A + 1) OR
         shr64 (quo64 (c XOR 2 ^ (j + m) * (2 * A + 1)) (2 ^ j)) 2 =
         2 ^ (j + m) * (2 * A + 1) + (2 ^ (m - 1) - 1)"
proof -
  define q :: int where "q = 2 ^ Suc m * A + (2 ^ m - 1)"
  define t :: int where "t = 2 ^ (j + m) * (2 * A + 1)"
  have cq: "c = 2 ^ j * q"
    by (simp only: c q_def)
  have m2: "(2::int) \<le> 2 ^ m" using power_increasing [of 1 m "2::int"] m by simp
  have "odd q" using m by (simp add: q_def)
  have q1: "1 \<le> q"
  proof -
    have "0 \<le> (2::int) ^ Suc m * A" using A by simp
    then show ?thesis unfolding q_def using m2 by linarith
  qed
  have j_le: "(2::int) ^ j \<le> c"
  proof -
    have "(2::int) ^ j * 1 \<le> 2 ^ j * q" using q1 by (intro mult_left_mono) auto
    then show ?thesis using cq by simp
  qed
  have c_pos: "0 < c"
    by (rule less_le_trans [OF _ j_le]) simp
  have neg: "neg64 c = - c"
    using c_pos small by (simp add: neg64_def wrap64_id)
  have "c AND - c = 2 ^ j"
    unfolding cq using \<open>odd q\<close> by (rule and_neg_shift_odd)
  then show "c AND neg64 c = 2 ^ j"
    by (simp only: neg)
  have ct: "c + 2 ^ j = t"
    unfolding c t_def by (rule gosper_c_plus)
  have t_small: "t < 2 ^ 63"
    using ct j_le small by simp
  have "add64 c (2 ^ j) = wrap64 t"
    by (simp only: add64_def ct)
  also have "\<dots> = t"
  proof (rule wrap64_id)
    have "(0::int) \<le> 2 ^ j" by simp
    then have "0 \<le> t" using ct c_pos by linarith
    then show "- (2 ^ 63) \<le> t" by simp
    show "t < 2 ^ 63" by (rule t_small)
  qed
  finally show "add64 c (2 ^ j) = 2 ^ (j + m) * (2 * A + 1)"
    by (simp only: t_def)
  have x1: "0 \<le> (2::int) ^ j * (2 ^ m - 1)" "(2::int) ^ j * (2 ^ m - 1) < 2 ^ (j + m + 1)"
  proof -
    show "0 \<le> (2::int) ^ j * (2 ^ m - 1)" by simp
    have e: "(0::int) < 2 ^ m" by simp
    have "(2::int) ^ (m + 1) = 2 * 2 ^ m" by simp
    then have "(2::int) ^ m - 1 < 2 ^ (m + 1)" using e by linarith
    then have "(2::int) ^ j * (2 ^ m - 1) < 2 ^ j * 2 ^ (m + 1)"
      by (intro mult_strict_left_mono) simp_all
    then show "(2::int) ^ j * (2 ^ m - 1) < 2 ^ (j + m + 1)"
      by (simp only: power_add add.assoc)
  qed
  have x2: "0 \<le> (2::int) ^ (j + m)" "(2::int) ^ (j + m) < 2 ^ (j + m + 1)"
    by simp_all
  have c_form: "c = 2 ^ (j + m + 1) * A + 2 ^ j * (2 ^ m - 1)"
    unfolding c by (rule gosper_c_form)
  have t_form: "t = 2 ^ (j + m + 1) * A + 2 ^ (j + m)"
    unfolding t_def by (rule gosper_t_form)
  have "c XOR t = (2 ^ j * (2 ^ m - 1)) XOR 2 ^ (j + m)"
    unfolding c_form t_form using x1 x2 by (rule shift_add_xor)
  also have "\<dots> = 2 ^ j * ((2 ^ m - 1) XOR 2 ^ m)"
    by (simp only: power_add exp_mult_xor)
  also have "\<dots> = 2 ^ j * (2 ^ Suc m - 1)"
    by (simp only: ones_xor_exp)
  finally have x: "c XOR t = 2 ^ j * (2 ^ Suc m - 1)" .
  have "(2::int) ^ Suc m - 1 < 2 ^ 63"
  proof -
    have "(2::int) ^ j * (2 ^ m * 1) \<le> 2 ^ j * (2 ^ m * (2 * A + 1))"
      using A by (intro mult_left_mono) auto
    then have "(2::int) ^ j * 2 ^ m \<le> t" by (simp only: t_def power_add mult.assoc mult_1_right)
    moreover have "(2::int) ^ m * 1 \<le> 2 ^ m * 2 ^ j" by (intro mult_left_mono) auto
    then have "(2::int) ^ m \<le> 2 ^ j * 2 ^ m" by (simp only: mult_1_right mult.commute)
    ultimately have "(2::int) ^ m < 2 ^ 63" using t_small by linarith
    then have "m < 63" by (simp only: power_strict_increasing_iff [of "2::int"] one_less_numeral_iff semiring_norm)
    then have "Suc m \<le> 63" by simp
    then have "(2::int) ^ Suc m \<le> 2 ^ 63" by (intro power_increasing) auto
    then show ?thesis by linarith
  qed
  moreover have "0 \<le> (2::int) ^ Suc m - 1" by simp
  ultimately have "quo64 (c XOR t) (2 ^ j) = 2 ^ Suc m - 1"
    unfolding x by (intro quo64_exact) auto
  then have y: "shr64 (quo64 (c XOR t) (2 ^ j)) 2 = 2 ^ (m - 1) - 1"
    by (simp only: shr64_ones)
  have "0 \<le> (2::int) ^ (m - 1) - 1" by simp
  moreover have "(2::int) ^ (m - 1) - 1 < 2 ^ (j + m)"
  proof -
    have "(2::int) ^ (m - 1) \<le> 2 ^ (j + m)" by (intro power_increasing) auto
    then show ?thesis by linarith
  qed
  ultimately have "t OR (2 ^ (m - 1) - 1) = t + (2 ^ (m - 1) - 1)"
    unfolding t_def by (rule shift_add_or)
  then show "2 ^ (j + m) * (2 * A + 1) OR
         shr64 (quo64 (c XOR 2 ^ (j + m) * (2 * A + 1)) (2 ^ j)) 2 =
         2 ^ (j + m) * (2 * A + 1) + (2 ^ (m - 1) - 1)"
    by (simp only: y t_def [symmetric])
qed

subsection \<open>The loop enumerates the combinations\<close>

lemma filter_upt_skip:
  assumes "c < c'" "c' \<le> N" "P c" "\<forall>x. c < x \<and> x < c' \<longrightarrow> \<not> P x"
  shows "filter P [c..<N] = c # filter P [c'..<N]"
proof -
  have "[c..<c' + (N - c')] = [c..<c'] @ [c'..<c' + (N - c')]"
    using assms(1) by (intro upt_add_eq_append) simp
  then have "[c..<N] = [c..<c'] @ [c'..<N]" using assms(2) by simp
  moreover have "[c..<c'] = c # [Suc c..<c']" using assms(1) by (simp add: upt_conv_Cons)
  ultimately have "[c..<N] = c # [Suc c..<c'] @ [c'..<N]" by simp
  moreover have "filter P [Suc c..<c'] = []"
    using assms(4) by (auto simp: filter_empty_conv)
  ultimately show ?thesis using assms(3) by simp
qed

lemma filter_upt_last:
  assumes "c < N" "P c" "\<forall>x. c < x \<and> x < N \<longrightarrow> \<not> P x"
  shows "filter P [c..<N] = [c]"
proof -
  have "[c..<N] = c # [Suc c..<N]" using assms(1) by (simp add: upt_conv_Cons)
  moreover have "filter P [Suc c..<N] = []"
    using assms(3) by (auto simp: filter_empty_conv)
  ultimately show ?thesis using assms(2) by simp
qed

lemma wrap64_nonneg: "0 \<le> x \<Longrightarrow> x < 2 ^ 63 \<Longrightarrow> wrap64 x = x"
  by (rule wrap64_id) simp_all

lemma max_combination:
  assumes "k \<le> n" "n \<le> 62"
  shows "shl64 (sub64 (shl64 1 k) 1) (n - k) = int (2 ^ n - 2 ^ (n - k))"
proof -
  have k62: "k \<le> 62" using assms by simp
  have p: "(2::int) ^ k \<le> 2 ^ 62" using k62 by (intro power_increasing) auto
  have "wrap64 (2 ^ k - 1) = 2 ^ k - 1"
  proof (rule wrap64_nonneg)
    show "0 \<le> (2::int) ^ k - 1" by simp
    show "(2::int) ^ k - 1 < 2 ^ 63" using p by simp
  qed
  then have s1: "sub64 (shl64 1 k) 1 = 2 ^ k - 1"
    by (simp only: shl64_one_small [OF k62] sub64_def)
  have e: "((2::int) ^ k - 1) * 2 ^ (n - k) = 2 ^ n - 2 ^ (n - k)"
    using assms(1) by (simp add: algebra_simps flip: power_add)
  have w: "wrap64 (2 ^ n - 2 ^ (n - k)) = 2 ^ n - 2 ^ (n - k)"
  proof (rule wrap64_nonneg)
    have "(2::int) ^ (n - k) \<le> 2 ^ n" by (intro power_increasing) auto
    then show "0 \<le> (2::int) ^ n - 2 ^ (n - k)" by simp
    define E :: int where "E = 2 ^ (n - k)"
    have "(2::int) ^ n \<le> 2 ^ 62" using assms(2) by (intro power_increasing) auto
    moreover have "0 < E" by (simp add: E_def)
    ultimately have "(2::int) ^ n - E < 2 ^ 63" by simp
    then show "(2::int) ^ n - 2 ^ (n - k) < 2 ^ 63" by (simp only: E_def)
  qed
  have "shl64 (sub64 (shl64 1 k) 1) (n - k) = shl64 (2 ^ k - 1) (n - k)"
    by (simp only: s1)
  also have "\<dots> = wrap64 ((2 ^ k - 1) * 2 ^ (n - k))"
    by (simp only: shl64_def push_bit_eq_mult)
  also have "\<dots> = 2 ^ n - 2 ^ (n - k)"
    by (simp only: e w)
  finally have "shl64 (sub64 (shl64 1 k) 1) (n - k) = 2 ^ n - 2 ^ (n - k)" .
  moreover have "int (2 ^ n - 2 ^ (n - k)) = 2 ^ n - 2 ^ (n - k)"
    by (simp add: of_nat_diff)
  ultimately show ?thesis by simp
qed

lemma gosper_next_in_range:
  fixes a :: nat
  assumes "2 ^ (j + m) * (2 * a + 1) < (2::nat) ^ n"
  shows "2 ^ (j + m) * (2 * a + 1) + ones (m - 1) < 2 ^ n"
proof -
  define h where "h = j + m"
  have t: "2 ^ h * (2 * a + 1) < (2::nat) ^ n" using assms by (simp add: h_def)
  have "(2::nat) ^ h \<le> 2 ^ h * (2 * a + 1)" by simp
  then have "(2::nat) ^ h < 2 ^ n" using t by (rule le_less_trans)
  then have hn: "h < n" by simp
  then have n_eq: "(2::nat) ^ n = 2 ^ h * 2 ^ (n - h)"
    by (simp flip: power_add)
  have "2 ^ h * (2 * a + 1) < (2::nat) ^ h * 2 ^ (n - h)" using t by (simp only: n_eq)
  then have "2 * a + 1 < 2 ^ (n - h)" by (metis mult_less_cancel1)
  then have "2 * a + 2 \<le> 2 ^ (n - h)" by simp
  then have "2 ^ h * (2 * a + 2) \<le> (2::nat) ^ h * 2 ^ (n - h)" by (intro mult_le_mono2)
  then have le: "2 ^ h * (2 * a + 1) + 2 ^ h \<le> (2::nat) ^ n"
    unfolding n_eq by (simp add: algebra_simps)
  have "ones (m - 1) < 2 ^ (m - 1)" by (rule ones_less)
  also have "(2::nat) ^ (m - 1) \<le> 2 ^ h" by (intro power_increasing) (auto simp: h_def)
  finally have "ones (m - 1) < 2 ^ h" .
  then show ?thesis using le by (simp add: h_def)
qed

lemma loop_step:
  fixes a :: nat
  assumes n: "n \<le> 62" and m: "0 < m"
    and c: "c = 2 ^ j * (2 ^ Suc m * a + ones m)" and cn: "c < 2 ^ n"
    and cM: "int c \<le> M"
  shows "generateCombinations_loop cb M (int c) calls =
     (if cb (int c) then Some (Inr (True, calls @ [int c]))
      else if M < int (2 ^ (j + m) * (2 * a + 1)) then Some (Inr (False, calls @ [int c]))
      else generateCombinations_loop cb M (int (2 ^ (j + m) * (2 * a + 1) + ones (m - 1)))
             (calls @ [int c]))"
proof -
  have "(2::nat) ^ n \<le> 2 ^ 62" using n by (intro power_increasing) auto
  then have "c < 2 ^ 62" using cn by simp
  then have small: "int c < 2 ^ 62" by (metis of_nat_less_iff of_nat_numeral of_nat_power)
  have ci: "int c = 2 ^ j * (2 ^ Suc m * int a + (2 ^ m - 1))"
    unfolding c by (rule gosper_c_int)
  have A: "0 \<le> int a" by simp
  note st = gosper_step_int [OF m A ci small]
  have r: "int c AND neg64 (int c) = 2 ^ j" by (rule st(1))
  have t: "add64 (int c) (2 ^ j) = int (2 ^ (j + m) * (2 * a + 1))"
    by (simp only: st(2) gosper_t_int)
  have nx: "int (2 ^ (j + m) * (2 * a + 1)) OR
      shr64 (quo64 (int c XOR int (2 ^ (j + m) * (2 * a + 1))) (2 ^ j)) 2 =
      int (2 ^ (j + m) * (2 * a + 1) + ones (m - 1))"
    using st(3) by (simp only: gosper_t_int of_nat_add int_ones)
  have nz: "(2::int) ^ j \<noteq> 0" by simp
  show ?thesis
    by (subst generateCombinations_loop.simps) (simp only: cM r t nx nz Let_def if_True if_False)
qed

lemma loop_correct:
  assumes n: "n \<le> 62" and k: "0 < k" "k \<le> n" and M: "M = 2 ^ n - 2 ^ (n - k)"
  shows "popcount c = k \<Longrightarrow> c < 2 ^ n \<Longrightarrow>
     generateCombinations_loop cb (int M) (int c) calls =
       Some (Inr ((\<exists>x \<in> set (filter (\<lambda>x. popcount x = k) [c..<2 ^ n]). cb (int x)),
                  calls @ calls_until cb (map int (filter (\<lambda>x. popcount x = k) [c..<2 ^ n]))))"
proof (induction "2 ^ n - c" arbitrary: c calls rule: less_induct)
  case less
  let ?P = "\<lambda>x. popcount x = k"
  have Pc: "?P c" using less.prems by simp
  have cn: "c < 2 ^ n" using less.prems by simp
  have "c \<noteq> 0"
  proof
    assume "c = 0"
    then have "popcount c = 0" by simp
    then show False using Pc k by simp
  qed
  then have "0 < c" by simp
  from gosper_shape [OF this] obtain j m a where m: "0 < m"
    and c: "c = 2 ^ j * (2 ^ Suc m * a + ones m)" by blast
  have km: "k = popcount a + m"
    using gosper_popcount(1) [OF m, of j a] Pc c by simp
  define t where "t = 2 ^ (j + m) * (2 * a + 1)"
  define nxt where "nxt = t + ones (m - 1)"
  have ct: "c + 2 ^ j = t" unfolding c t_def by (rule gosper_greater)
  have c_lt_t: "c < t" using ct by (metis less_add_same_cancel1 zero_less_numeral zero_less_power)
  have t_le: "t \<le> nxt" by (simp add: nxt_def)
  have Pn: "?P nxt"
    using gosper_popcount(2) [OF m, of j a] km by (simp add: nxt_def t_def)
  have between: "\<forall>x. c < x \<and> x < nxt \<longrightarrow> \<not> ?P x"
    using gosper_between [OF m, of j a] km unfolding c nxt_def t_def by blast
  have max: "\<And>x. x < 2 ^ n \<Longrightarrow> ?P x \<Longrightarrow> x \<le> M"
  proof -
    fix x assume "x < 2 ^ n" "?P x"
    with popcount_max [of x n] have "x + 2 ^ (n - k) \<le> 2 ^ n" by simp
    then show "x \<le> M" by (simp add: M)
  qed
  have Mn: "M < 2 ^ n" by (simp add: M)
  have cM: "int c \<le> int M" using max [OF cn Pc] by (simp only: of_nat_le_iff)
  have step: "generateCombinations_loop cb (int M) (int c) calls =
     (if cb (int c) then Some (Inr (True, calls @ [int c]))
      else if int M < int t then Some (Inr (False, calls @ [int c]))
      else generateCombinations_loop cb (int M) (int nxt) (calls @ [int c]))"
    unfolding t_def nxt_def by (rule loop_step [OF n m c cn cM])
  show ?case
  proof (cases "cb (int c)")
    case True
    have "filter ?P [c..<2 ^ n] = c # filter ?P [Suc c..<2 ^ n]"
      using cn Pc by (simp add: upt_conv_Cons)
    then show ?thesis using True step by simp
  next
    case False
    show ?thesis
    proof (cases "M < t")
      case True
      have "\<forall>x. c < x \<and> x < 2 ^ n \<longrightarrow> \<not> ?P x"
      proof (intro allI impI notI)
        fix x assume x: "c < x \<and> x < 2 ^ n" and Px: "?P x"
        have "nxt \<le> x"
        proof (rule ccontr)
          assume "\<not> nxt \<le> x"
          then have "c < x \<and> x < nxt" using x by simp
          then show False using between Px by blast
        qed
        moreover have "x \<le> M" using max x Px by blast
        ultimately show False using True t_le by simp
      qed
      then have "filter ?P [c..<2 ^ n] = [c]"
        using cn Pc by (intro filter_upt_last) auto
      then show ?thesis using True False step by simp
    next
      case tM: False
      then have "t < 2 ^ n" using Mn by simp
      then have nn: "nxt < 2 ^ n"
        unfolding nxt_def t_def by (rule gosper_next_in_range)
      have c_nxt: "c < nxt" using c_lt_t t_le by simp
      have fl: "filter ?P [c..<2 ^ n] = c # filter ?P [nxt..<2 ^ n]"
        using c_nxt nn Pc between by (intro filter_upt_skip) auto
      have "2 ^ n - nxt < 2 ^ n - c" using c_nxt nn by simp
      from less.hyps [OF this Pn nn, of "calls @ [int c]"]
      show ?thesis using tM False step fl by simp
    qed
  qed
qed

lemma popcount_eq_0_imp: "popcount x = 0 \<Longrightarrow> x = 0"
proof (induction x rule: popcount.induct)
  case (1 n)
  show ?case
  proof (rule ccontr)
    assume n: "n \<noteq> 0"
    from "1.prems" have "n mod 2 + popcount (n div 2) = 0"
      by (subst (asm) popcount_rec)
    then have "n mod 2 = 0" "popcount (n div 2) = 0" by simp_all
    with "1.IH" [OF n] have "n mod 2 = 0" "n div 2 = 0" by simp_all
    then show False using n by presburger
  qed
qed

lemma popcount_eq_0_iff [simp]: "popcount x = 0 \<longleftrightarrow> x = 0"
  using popcount_eq_0_imp by auto

lemma popcount_below_ones:
  assumes "x < ones k"
  shows "popcount x \<noteq> k"
proof
  assume "popcount x = k"
  with popcount_min [of x] have "2 ^ k \<le> x + 1" by simp
  then show False using assms by (simp add: ones_def)
qed

lemma filter_upt_drop:
  assumes "c \<le> N" "\<forall>x < c. \<not> P x"
  shows "filter P [0..<N] = filter P [c..<N]"
proof -
  have "[0..<c + (N - c)] = [0..<c] @ [c..<c + (N - c)]"
    by (intro upt_add_eq_append) simp
  then have "[0..<N] = [0..<c] @ [c..<N]" using assms(1) by simp
  moreover have "filter P [0..<c] = []"
    using assms(2) by (auto simp: filter_empty_conv)
  ultimately show ?thesis by simp
qed

lemma combinations_0: "combinations n 0 = [0]"
proof -
  have "filter (\<lambda>x. popcount x = 0) [0..<2 ^ n] = [0]"
    by (intro filter_upt_last) auto
  then show ?thesis by (simp add: combinations_def)
qed

lemma combinations_large: "n < k \<Longrightarrow> combinations n k = []"
  using popcount_max by (fastforce simp: combinations_def filter_empty_conv)

lemma generateCombinations_small:
  assumes "n \<le> 62"
  shows "generateCombinations n k cb =
     Some (Inr ((\<exists>x \<in> set (combinations n k). cb x), calls_until cb (combinations n k)))"
proof (cases "k = 0")
  case True
  then show ?thesis by (simp add: generateCombinations_def combinations_0)
next
  case False
  show ?thesis
  proof (cases "n < k")
    case True
    then show ?thesis using False by (simp add: generateCombinations_def combinations_large)
  next
    case kn: False
    then have k: "0 < k" "k \<le> n" using False by simp_all
    have k62: "k \<le> 62" using k assms by simp
    have p: "(2::int) ^ k \<le> 2 ^ 62" using k62 by (intro power_increasing) auto
    have "wrap64 (2 ^ k - 1) = 2 ^ k - 1"
    proof (rule wrap64_nonneg)
      show "0 \<le> (2::int) ^ k - 1" by simp
      show "(2::int) ^ k - 1 < 2 ^ 63" using p by simp
    qed
    then have c0: "sub64 (shl64 1 k) 1 = int (ones k)"
      by (simp only: shl64_one_small [OF k62] sub64_def int_ones)
    have mx: "shl64 (int (ones k)) (n - k) = int (2 ^ n - 2 ^ (n - k))"
      using max_combination [OF k(2) assms] by (simp only: c0)
    have "(2::nat) ^ k \<le> 2 ^ n" using k by (intro power_increasing) auto
    then have on: "ones k < 2 ^ n" by (rule less_le_trans [OF ones_less])
    have fl: "filter (\<lambda>x. popcount x = k) [0..<2 ^ n] = filter (\<lambda>x. popcount x = k) [ones k..<2 ^ n]"
      using on popcount_below_ones by (intro filter_upt_drop) auto
    have "generateCombinations n k cb =
        generateCombinations_loop cb (int (2 ^ n - 2 ^ (n - k))) (int (ones k)) []"
      using False kn by (simp only: generateCombinations_def c0 mx Let_def if_False)
    also have "\<dots> = Some (Inr ((\<exists>x \<in> set (filter (\<lambda>x. popcount x = k) [ones k..<2 ^ n]). cb (int x)),
        [] @ calls_until cb (map int (filter (\<lambda>x. popcount x = k) [ones k..<2 ^ n]))))"
      using on by (intro loop_correct [OF assms k refl]) simp_all
    finally show ?thesis
      by (simp add: combinations_def fl)
  qed
qed

subsection \<open>The combinations\<close>

lemma set_combinations:
  "set (combinations n k) = {x. 0 \<le> x \<and> x < 2 ^ n \<and> popcount (nat x) = k}"
proof (rule set_eqI)
  fix x :: int
  show "x \<in> set (combinations n k) \<longleftrightarrow> x \<in> {x. 0 \<le> x \<and> x < 2 ^ n \<and> popcount (nat x) = k}"
  proof
    assume "x \<in> set (combinations n k)"
    then obtain y where "x = int y" "y < 2 ^ n" "popcount y = k"
      by (auto simp: combinations_def)
    then show "x \<in> {x. 0 \<le> x \<and> x < 2 ^ n \<and> popcount (nat x) = k}"
      by simp
  next
    assume "x \<in> {x. 0 \<le> x \<and> x < 2 ^ n \<and> popcount (nat x) = k}"
    then have x: "0 \<le> x" "x < 2 ^ n" "popcount (nat x) = k" by simp_all
    then have "nat x < 2 ^ n" by (simp add: nat_less_iff)
    then have "nat x \<in> set (filter (\<lambda>x. popcount x = k) [0..<2 ^ n])" using x by simp
    then have "int (nat x) \<in> set (combinations n k)"
      unfolding combinations_def by (simp only: set_map) (rule imageI)
    then show "x \<in> set (combinations n k)" using x by simp
  qed
qed

lemma sorted_combinations: "sorted_wrt (<) (combinations n k)"
proof -
  have "sorted_wrt (<) (filter (\<lambda>x. popcount x = k) [0..<2 ^ n])"
    by (rule sorted_wrt_filter) (rule sorted_wrt_upt)
  then show ?thesis
    by (simp add: combinations_def sorted_wrt_map)
qed

lemma popcount_add_exp:
  assumes "x < 2 ^ n"
  shows "popcount (x + 2 ^ n) = Suc (popcount x)"
proof -
  have "popcount (2 ^ n * 1 + x) = popcount 1 + popcount x"
    using assms by (rule popcount_shift_add)
  moreover have "popcount 1 = 1" by (subst popcount_rec) simp
  ultimately show ?thesis by (simp add: add.commute)
qed

lemma count_combinations:
  "length (filter (\<lambda>x. popcount x = k) [0..<2 ^ n]) = n choose k"
proof (induction n arbitrary: k)
  case 0
  show ?case by (cases k) simp_all
next
  case (Suc n)
  have "[0..<2 ^ n + 2 ^ n] = [0..<2 ^ n] @ [2 ^ n..<2 ^ n + 2 ^ n]"
    by (intro upt_add_eq_append) simp
  moreover have "[2 ^ n..<2 ^ n + 2 ^ n] = map (\<lambda>x. x + 2 ^ n) [0..<2 ^ n]"
    using map_add_upt [of "2 ^ n" "2 ^ n"] by simp
  ultimately have split: "[0..<2 ^ Suc n] = [0..<2 ^ n] @ map (\<lambda>x. x + 2 ^ n) [0..<2 ^ n]"
    by (simp add: mult_2)
  have "filter (\<lambda>x. popcount x = k) (map (\<lambda>x. x + 2 ^ n) [0..<2 ^ n]) =
      map (\<lambda>x. x + 2 ^ n) (filter (\<lambda>x. Suc (popcount x) = k) [0..<2 ^ n])"
    unfolding filter_map comp_def
    by (intro arg_cong [where f = "map (\<lambda>x. x + 2 ^ n)"] filter_cong refl)
      (simp add: popcount_add_exp)
  then have len: "length (filter (\<lambda>x. popcount x = k) [0..<2 ^ Suc n]) =
      length (filter (\<lambda>x. popcount x = k) [0..<2 ^ n]) +
      length (filter (\<lambda>x. Suc (popcount x) = k) [0..<2 ^ n])"
    unfolding split by simp
  show ?case
  proof (cases k)
    case 0
    then show ?thesis using len Suc.IH [of 0] by simp
  next
    case (Suc k')
    then show ?thesis using len Suc.IH [of k] Suc.IH [of k'] by simp
  qed
qed

lemma length_combinations: "length (combinations n k) = n choose k"
  by (simp add: combinations_def count_combinations)

lemma calls_until_all:
  "\<forall>x \<in> set xs. \<not> cb x \<Longrightarrow> calls_until cb xs = xs"
  by (induction xs) auto

lemma calls_until_first:
  "\<forall>y \<in> set ys. \<not> cb y \<Longrightarrow> cb x \<Longrightarrow> calls_until cb (ys @ x # zs) = ys @ [x]"
  by (induction ys) auto

text \<open>
  Claim C4, for \<open>n \<le> 62\<close>.  The call returns, having invoked the callback on the integers
  with exactly \<open>k\<close> bits set among the low \<open>n\<close> bits, in strictly increasing order, up to
  and including the first one the callback accepts; it returns \<open>true\<close> exactly when there
  is one.  There are \<open>n choose k\<close> of them; for \<open>k = 0\<close> it is 0 alone, for \<open>k > n\<close>
  there is none; a callback that never accepts is invoked on all of them, and one that
  accepts \<open>x\<close> after rejecting the values before it is invoked on nothing after \<open>x\<close>.
\<close>

theorem C4_generateCombinations:
  assumes "n \<le> 62"
  shows "generateCombinations n k callback =
           Some (Inr ((\<exists>x \<in> set (combinations n k). callback x),
                      calls_until callback (combinations n k))) \<and>
         set (combinations n k) = {x. 0 \<le> x \<and> x < 2 ^ n \<and> popcount (nat x) = k} \<and>
         sorted_wrt (<) (combinations n k) \<and>
         length (combinations n k) = n choose k \<and>
         combinations n 0 = [0] \<and>
         (n < k \<longrightarrow> combinations n k = []) \<and>
         ((\<forall>x \<in> set (combinations n k). \<not> callback x) \<longrightarrow>
            calls_until callback (combinations n k) = combinations n k) \<and>
         (\<forall>ys x zs. combinations n k = ys @ x # zs \<and> (\<forall>y \<in> set ys. \<not> callback y) \<and> callback x \<longrightarrow>
            calls_until callback (combinations n k) = ys @ [x])"
  using assms
  by (simp add: generateCombinations_small set_combinations sorted_combinations
      length_combinations combinations_0 combinations_large calls_until_all calls_until_first)

theorem C4_generateCombinations_witness:
  "(4::nat) \<le> 62 \<and>
   generateCombinations 4 2 (\<lambda>x. False) = Some (Inr (False, [3, 5, 6, 9, 10, 12])) \<and>
   combinations 4 2 = [3, 5, 6, 9, 10, 12] \<and>
   length (combinations 4 2) = 4 choose 2 \<and>
   generateCombinations 4 2 (\<lambda>x. x = 6) = Some (Inr (True, [3, 5, 6]))"
proof -
  have g: "generateCombinations 4 2 (\<lambda>x. False) = Some (Inr (False, [3, 5, 6, 9, 10, 12]))"
    by code_simp
  have h: "generateCombinations 4 2 (\<lambda>x. x = 6) = Some (Inr (True, [3, 5, 6]))"
    by code_simp
  have a: "(4::nat) \<le> 62" by simp
  have c: "combinations 4 2 = [3, 5, 6, 9, 10, 12]"
    using C4_generateCombinations [OF a, of 2 "\<lambda>x. False"] g by simp
  show ?thesis
    using C4_generateCombinations [OF a, of 2 "\<lambda>x. x = 6"] g h c by simp
qed

text \<open>
  With \<open>n = 64\<close> the largest combination \<open>1 << 63\<close> is negative in 64 bits, the loop is
  not entered, and the callback is invoked on nothing, although 64 integers have exactly
  one bit set among the low 64 bits, 1 being one of them.
\<close>

theorem C4_generateCombinations_counterexample:
  "generateCombinations 64 1 (\<lambda>x. False) = Some (Inr (False, [])) \<and>
   (64::nat) choose 1 = 64 \<and>
   (0::int) \<le> 1 \<and> (1::int) < 2 ^ 64 \<and> popcount (nat 1) = 1"
proof -
  have "generateCombinations 64 1 (\<lambda>x. False) = Some (Inr (False, []))"
    by code_simp
  moreover have "popcount (nat 1) = 1" by code_simp
  ultimately show ?thesis by simp
qed

section \<open>The loss models beyond 63 packets\<close>

lemma and_min_int_nonneg:
  fixes v :: int
  assumes "0 \<le> v" "v < 2 ^ 63"
  shows "v AND shl64 1 63 = 0"
proof (rule bit_eqI)
  fix i
  have "\<not> (bit v i \<and> bit (- (2 ^ 63) :: int) i)"
  proof
    assume b: "bit v i \<and> bit (- (2 ^ 63) :: int) i"
    then have "i < 63" using bit_below_exp [OF assms] by blast
    moreover have "bit (- (2 ^ 63) :: int) i \<longleftrightarrow> 63 \<le> i"
      unfolding bit_minus_exp_iff by simp
    then have "63 \<le> i" using b by blast
    ultimately show False by simp
  qed
  then show "bit (v AND shl64 1 63) i = bit (0::int) i"
    by (simp add: shl64_one_63 bit_and_iff)
qed

lemma bernoulli_weight_lost:
  "v AND shl64 1 n = 0 \<Longrightarrow> bernoulli_weight 0 v (Suc n) = 0"
  by simp

lemma Random_zero_65: "Random_CalculateProbability (NewRandomLossModel 0) v 65 = 0"
proof -
  have "v AND shl64 1 64 = 0" by (simp add: shl64_one_large)
  then have "bernoulli_weight 0 v (Suc 64) = 0"
    by (rule bernoulli_weight_lost)
  moreover have "nat 65 = Suc 64" by simp
  ultimately have "bernoulli_weight 0 v (nat 65) = 0" by (simp only:)
  then show ?thesis
    by (simp only: Random_CalculateProbability_weight) simp
qed

lemma Random_zero_64:
  assumes "0 \<le> v" "v < 2 ^ 63"
  shows "Random_CalculateProbability (NewRandomLossModel 0) v 64 = 0"
proof -
  have "bernoulli_weight 0 v (Suc 63) = 0"
    using and_min_int_nonneg [OF assms] by (rule bernoulli_weight_lost)
  moreover have "nat 64 = Suc 63" by simp
  ultimately have "bernoulli_weight 0 v (nat 64) = 0" by (simp only:)
  then show ?thesis
    by (simp only: Random_CalculateProbability_weight) simp
qed

lemma GE_zero_65:
  "fst (GE_CalculateProbability (NewGilbertElliotLossModel 0 0 0 0) v 65) = 0"
proof -
  have "cache_ok (NewGilbertElliotLossModel 0 0 0 0) (NewGilbertElliotLossModel 0 0 0 0)"
    by (rule cache_ok_self) simp
  then show ?thesis
    by (simp only: GE_CalculateProbability_ok(1) GE_probability_no_transitions Random_zero_65)
qed

text \<open>
  Beyond 63 packets the probabilities no longer add up to 1.  With \<open>N = 65\<close> the test
  of bit 64 shifts by 64 and always reads 0, so packet 64 counts as lost in every vertex:
  a model that loses nothing gives every vertex the probability 0.  With \<open>N = 64\<close> the
  same happens on all the vertices that are values of \<open>int\<close>, whose bit 63 is clear.
\<close>

theorem C5_probabilities_sum_to_one_counterexample:
  "(\<Sum>v = 0..<2 ^ nat 65. Random_CalculateProbability (NewRandomLossModel 0) v 65) = 0 \<and>
   (\<Sum>v = 0..<2 ^ nat 65.
      fst (GE_CalculateProbability (NewGilbertElliotLossModel 0 0 0 0) v 65)) = 0 \<and>
   (\<Sum>v = 0..<2 ^ 63. Random_CalculateProbability (NewRandomLossModel 0) v 64) = 0"
proof -
  have "(\<Sum>v = 0..<2 ^ 63. Random_CalculateProbability (NewRandomLossModel 0) v 64) = 0"
    by (intro sum.neutral ballI Random_zero_64) simp_all
  then show ?thesis
    by (simp only: Random_zero_65 GE_zero_65 sum.neutral_const)
qed

section \<open>The recovery characteristics\<close>

subsection \<open>The two searches\<close>

lemma lookup_reachableSet_loop:
  "lookup_bool (reachableSet_loop R m) v \<longleftrightarrow> v \<in> set R \<or> lookup_bool m v"
  by (induction R arbitrary: m) (auto simp: lookup_bool_def)

lemma lookup_reachableSet [simp]:
  "lookup_bool (reachableSet_loop R Map.empty) v \<longleftrightarrow> v \<in> set R"
  by (simp add: lookup_reachableSet_loop) (simp add: lookup_bool_def)

lemma all_ones_small: "tot \<le> 62 \<Longrightarrow> sub64 (shl64 1 tot) 1 = 2 ^ tot - 1"
proof -
  assume t: "tot \<le> 62"
  have p: "(2::int) ^ tot \<le> 2 ^ 62" using t by (intro power_increasing) auto
  have "wrap64 (2 ^ tot - 1) = 2 ^ tot - 1"
  proof (rule wrap64_nonneg)
    show "0 \<le> (2::int) ^ tot - 1" by simp
    show "(2::int) ^ tot - 1 < 2 ^ 63" using p by simp
  qed
  then show ?thesis by (simp only: shl64_one_small [OF t] sub64_def)
qed

lemma hasNonRecoverablePattern_small:
  assumes "tot \<le> 62"
  shows "hasNonRecoverablePattern N K tot numLost (reachableSet_loop R Map.empty) =
           Some (Inr (lost_count_fails tot R numLost))"
proof -
  have "(\<exists>x \<in> set (combinations tot numLost). (2 ^ tot - 1) XOR x \<notin> set R) =
      lost_count_fails tot R numLost"
    unfolding set_combinations lost_count_fails_def by auto
  then show ?thesis
    by (simp add: hasNonRecoverablePattern_def generateCombinations_small [OF assms]
        all_ones_small [OF assms])
qed

lemma findMinLostPacketsForNonRecovery_loop_first:
  assumes "\<forall>j \<in> set js. hasNonRecoverablePattern N K tot j rs = Some (Inr (fails j))"
  shows "findMinLostPacketsForNonRecovery_loop N K tot rs js = Some (Inr (first_failing fails js))"
  using assms by (induction js) (auto simp: first_failing_def)

lemma find_upt_None:
  assumes "find P [a..<b] = None"
  shows "\<forall>j. a \<le> j \<and> j < b \<longrightarrow> \<not> P j"
  using assms by (auto simp: find_None_iff)

lemma find_upt_Some:
  assumes "find P [a..<b] = Some r"
  shows "a \<le> r \<and> r < b \<and> P r \<and> (\<forall>j. a \<le> j \<and> j < r \<longrightarrow> \<not> P j)"
proof -
  from assms obtain i where i: "i < length [a..<b]" "P ([a..<b] ! i)"
      "r = [a..<b] ! i" "\<forall>j < i. \<not> P ([a..<b] ! j)"
    unfolding find_Some_iff by blast
  have ib: "i < b - a" using i(1) by simp
  then have r: "r = a + i" using i(3) by simp
  have least: "\<forall>j. a \<le> j \<and> j < r \<longrightarrow> \<not> P j"
  proof (intro allI impI)
    fix j assume j: "a \<le> j \<and> j < r"
    then have ji: "j - a < i" using r by linarith
    then have "\<not> P ([a..<b] ! (j - a))" using i(4) by blast
    moreover have "[a..<b] ! (j - a) = a + (j - a)" using ji ib by (intro nth_upt) linarith
    ultimately show "\<not> P j" using j by simp
  qed
  show ?thesis using r ib i(2,3) least by simp
qed

lemma first_failing_min: "is_min_failing fails tot (first_failing fails [1..<tot + 1])"
proof (cases "find fails [1..<tot + 1]")
  case None
  from find_upt_None [OF this] have "\<forall>j. 1 \<le> j \<and> j \<le> tot \<longrightarrow> \<not> fails j"
    by simp
  then show ?thesis using None by (simp only: is_min_failing_def first_failing_def) simp
next
  case (Some r)
  from find_upt_Some [OF this] have r: "1 \<le> r" "r \<le> tot" "fails r"
    and least: "\<forall>j. 1 \<le> j \<and> j < r \<longrightarrow> \<not> fails j"
    by simp_all
  have ex: "\<exists>j. 1 \<le> j \<and> j \<le> tot \<and> fails j"
    using r by blast
  have "first_failing fails [1..<tot + 1] = int r"
    using Some by (simp only: first_failing_def option.case)
  then show ?thesis
    unfolding is_min_failing_def using ex r least by simp
qed

lemma findMinLostPacketsForNonRecovery_small:
  assumes "tot \<le> 62"
  shows "findMinLostPacketsForNonRecovery N K tot (reachableSet_loop R Map.empty) =
           Some (Inr (first_failing (lost_count_fails tot R) [1..<tot + 1]))"
  unfolding findMinLostPacketsForNonRecovery_def
  by (intro findMinLostPacketsForNonRecovery_loop_first ballI
      hasNonRecoverablePattern_small [OF assms])

lemma lossPattern_loop_append:
  "lossPattern_loop (xs @ ys) lp = lossPattern_loop ys (lossPattern_loop xs lp)"
  by (induction xs arbitrary: lp) simp_all

lemma lossPattern_loop_run:
  assumes "start + len \<le> 62"
  shows "lossPattern_loop [start..<start + len] 0 = push_bit start (mask len)"
  using assms
proof (induction len)
  case 0
  then show ?case by simp
next
  case (Suc len)
  then have "shl64 1 (start + len) = 2 ^ (start + len)"
    by (intro shl64_one_small) simp
  moreover have "lossPattern_loop [start..<start + len] 0 = push_bit start (mask len)"
    using Suc by simp
  moreover have "(push_bit start (mask len) :: int) OR 2 ^ (start + len) =
      push_bit start (mask (Suc len))"
  proof -
    have "(2::int) ^ (start + len) = push_bit start (2 ^ len)"
      by (simp add: push_bit_eq_mult power_add)
    then have "(push_bit start (mask len) :: int) OR 2 ^ (start + len) =
        push_bit start (mask len OR 2 ^ len)"
      by (simp only: push_bit_or)
    also have "(mask len :: int) OR 2 ^ len = mask (Suc len)"
      by (simp add: mask_Suc_exp or.commute)
    finally show ?thesis .
  qed
  ultimately show ?case
    by (simp add: lossPattern_loop_append)
qed

lemma startPos_loop_eq:
  assumes "tot \<le> 62" "\<forall>s \<in> set starts. s + len \<le> tot"
  shows "startPos_loop tot len (reachableSet_loop R Map.empty) starts =
     (if \<exists>s \<in> set starts. (2 ^ tot - 1) XOR push_bit s (mask len) \<notin> set R
      then Some (int len) else None)"
  using assms(2)
proof (induction starts)
  case Nil
  then show ?case by simp
next
  case (Cons s starts)
  then have "s + len \<le> 62" using assms(1) by simp
  then have "lossPattern_loop [s..<s + len] 0 = push_bit s (mask len)"
    by (rule lossPattern_loop_run)
  then show ?case
    using Cons by (simp add: all_ones_small [OF assms(1)] Let_def)
qed

lemma run_fails_starts:
  assumes "len \<le> tot"
  shows "(\<exists>s \<in> set [0..<tot - len + 1]. (2 ^ tot - 1) XOR push_bit s (mask len) \<notin> set R) =
     run_fails tot R len"
proof -
  have "\<And>s. s \<in> set [0..<tot - len + 1] \<longleftrightarrow> s + len \<le> tot"
    using assms by auto
  then show ?thesis unfolding run_fails_def by blast
qed

lemma findMinConsecutiveLostForNonRecovery_loop_first:
  assumes "tot \<le> 62" "\<forall>len \<in> set lens. len \<le> tot"
  shows "findMinConsecutiveLostForNonRecovery_loop tot (reachableSet_loop R Map.empty) lens =
           first_failing (run_fails tot R) lens"
  using assms(2)
proof (induction lens)
  case Nil
  then show ?case by (simp add: first_failing_def)
next
  case (Cons len lens)
  then have len: "len \<le> tot" by simp
  have "\<forall>s \<in> set [0..<tot - len + 1]. s + len \<le> tot" using len by auto
  from startPos_loop_eq [OF assms(1) this, of R]
  have "startPos_loop tot len (reachableSet_loop R Map.empty) [0..<tot - len + 1] =
      (if run_fails tot R len then Some (int len) else None)"
    by (simp only: run_fails_starts [OF len])
  then show ?case
    using Cons by (simp add: first_failing_def)
qed

lemma findMinConsecutiveLostForNonRecovery_small:
  assumes "tot \<le> 62"
  shows "findMinConsecutiveLostForNonRecovery N K tot (reachableSet_loop R Map.empty) =
           first_failing (run_fails tot R) [1..<tot + 1]"
  unfolding findMinConsecutiveLostForNonRecovery_def
  by (intro findMinConsecutiveLostForNonRecovery_loop_first assms) auto

lemma CalculateRecoveryCharacteristicsFromReachable_small:
  assumes "N + K \<le> 62"
  shows "CalculateRecoveryCharacteristicsFromReachable N K R =
     Some (Inr \<lparr>MinLostPacketsForNonRecovery =
                  first_failing (lost_count_fails (N + K) R) [1..<N + K + 1],
                MinConsecutiveLostForNonRecovery =
                  first_failing (run_fails (N + K) R) [1..<N + K + 1]\<rparr>)"
  by (simp add: CalculateRecoveryCharacteristicsFromReachable_def Let_def
      findMinLostPacketsForNonRecovery_small [OF assms]
      findMinConsecutiveLostForNonRecovery_small [OF assms])

subsection \<open>When every vertex is reachable\<close>

lemma first_failing_none:
  assumes "\<forall>j. \<not> fails j"
  shows "first_failing fails js = - 1"
proof -
  have "find fails js = None" using assms by (simp add: find_None_iff)
  then show ?thesis by (simp add: first_failing_def)
qed

lemma run_pattern_range:
  assumes "start + len \<le> tot"
  shows "0 \<le> (push_bit start (mask len) :: int)" "(push_bit start (mask len) :: int) < 2 ^ tot"
proof -
  show "0 \<le> (push_bit start (mask len) :: int)" by simp
  have "(2::int) ^ len - 1 < 2 ^ len" by simp
  then have "((2::int) ^ len - 1) * 2 ^ start < 2 ^ len * 2 ^ start"
    by (rule mult_strict_right_mono) simp
  also have "(2::int) ^ len * 2 ^ start = 2 ^ (start + len)"
    by (simp only: power_add mult.commute)
  also have "(2::int) ^ (start + len) \<le> 2 ^ tot"
    using assms by (intro power_increasing) simp_all
  finally show "(push_bit start (mask len) :: int) < 2 ^ tot"
    by (simp only: push_bit_eq_mult mask_eq_exp_minus_1)
qed

lemma delivery_in_range:
  fixes lp :: int
  assumes "0 \<le> lp" "lp < 2 ^ tot"
  shows "0 \<le> (2 ^ tot - 1) XOR lp" "(2 ^ tot - 1) XOR lp < 2 ^ tot"
proof -
  have a: "0 \<le> (2::int) ^ tot - 1" by simp
  have b: "(2::int) ^ tot - 1 < 2 ^ tot" by simp
  show "0 \<le> (2 ^ tot - 1) XOR lp" using a assms(1) by (rule XOR_lower)
  show "(2 ^ tot - 1) XOR lp < 2 ^ tot" using a b assms(2) by (rule XOR_upper)
qed

lemma all_reachable_no_failure:
  assumes "\<forall>v. 0 \<le> v \<and> v < 2 ^ tot \<longrightarrow> v \<in> set R"
  shows "\<not> lost_count_fails tot R j" "\<not> run_fails tot R j"
proof -
  have in_R: "\<And>lp. 0 \<le> lp \<Longrightarrow> lp < 2 ^ tot \<Longrightarrow> (2 ^ tot - 1) XOR lp \<in> set R"
  proof -
    fix lp :: int assume lp: "0 \<le> lp" "lp < 2 ^ tot"
    from delivery_in_range [OF lp] assms show "(2 ^ tot - 1) XOR lp \<in> set R" by simp
  qed
  show "\<not> lost_count_fails tot R j"
  proof
    assume "lost_count_fails tot R j"
    then obtain lp where "0 \<le> lp" "lp < 2 ^ tot" "(2 ^ tot - 1) XOR lp \<notin> set R"
      unfolding lost_count_fails_def by blast
    then show False using in_R by simp
  qed
  show "\<not> run_fails tot R j"
  proof
    assume "run_fails tot R j"
    then obtain start where s: "start + j \<le> tot"
      and n: "(2 ^ tot - 1) XOR push_bit start (mask j) \<notin> set R"
      unfolding run_fails_def by blast
    from run_pattern_range [OF s] in_R n show False by simp
  qed
qed

subsection \<open>Beyond 62 packets\<close>

lemma shl64_large: "64 \<le> s \<Longrightarrow> shl64 x s = 0"
proof -
  assume s: "64 \<le> s"
  have "(2::int) ^ 64 dvd 2 ^ s" using s by (rule le_imp_power_dvd)
  then have "(2::int) ^ 64 dvd x * 2 ^ s" by (rule dvd_mult)
  then have "(2::int) ^ 64 dvd push_bit s x" by (simp only: push_bit_eq_mult)
  then have "take_bit 64 (push_bit s x) = 0"
    by (simp only: take_bit_eq_0_iff)
  moreover have "\<not> bit (push_bit s x) 63"
    using s by (simp add: bit_push_bit_iff)
  ultimately have "signed_take_bit 63 (push_bit s x) = 0"
    by (simp add: signed_take_bit_eq_take_bit_minus)
  then show ?thesis by (simp add: shl64_def wrap64_def)
qed

lemma first_combination_pos:
  assumes "0 < k" "k \<le> 63"
  shows "0 < sub64 (shl64 1 k) 1"
proof (cases "k = 63")
  case True
  then show ?thesis by (simp add: shl64_one_63 sub64_def wrap64_def)
next
  case False
  then have k: "k \<le> 62" using assms by simp
  have "(2::int) ^ 1 \<le> 2 ^ k" using assms by (intro power_increasing) auto
  then have "(1::int) \<le> 2 ^ k - 1" by simp
  then show ?thesis using all_ones_small [OF k] by simp
qed

lemma generateCombinations_far:
  assumes "0 < k" "k \<le> 63" "64 \<le> n - k"
  shows "generateCombinations n k cb = Some (Inr (False, []))"
proof -
  have "k \<le> n" using assms by simp
  moreover have "\<not> sub64 (shl64 1 k) 1 \<le> 0"
    using first_combination_pos [OF assms(1,2)] by simp
  ultimately show ?thesis
    using assms(1)
    by (simp add: generateCombinations_def Let_def shl64_large [OF assms(3)])
      (subst generateCombinations_loop.simps, simp)
qed

lemma loop_forever:
  assumes "\<not> cb (- 1)"
  shows "generateCombinations_loop cb 0 (- 1) calls = None"
proof (rule ccontr)
  assume "generateCombinations_loop cb 0 (- 1) calls \<noteq> None"
  then obtain y where y: "generateCombinations_loop cb 0 (- 1) calls = Some y" by blast
  have step: "neg64 (- 1) = 1" "add64 (- 1) 1 = 0" "shr64 (quo64 (- 1) 1) 2 = - 1"
    by (simp_all add: neg64_def add64_def quo64_def shr64_def wrap64_def)
  have "\<not> cb (- 1) \<longrightarrow> (0::int) = 0 \<longrightarrow> (- 1 :: int) = - 1 \<longrightarrow> False"
  proof (rule generateCombinations_loop.raw_induct
      [where P = "\<lambda>cb M c calls y. \<not> cb (- 1) \<longrightarrow> M = 0 \<longrightarrow> c = - 1 \<longrightarrow> False", OF _ y],
      goal_cases)
    case (1 f cb' M c calls' y')
    show ?case
    proof (intro impI)
      assume nc: "\<not> cb' (- 1)" and M: "M = 0" and c: "c = - 1"
      from "1"(2) have "f cb' 0 (- 1) (calls' @ [- 1]) = Some y'"
        unfolding M c using nc by (simp add: step Let_def)
      from "1"(1) [OF this] nc show False by simp
    qed
  qed
  then show False using assms by simp
qed

lemma findMinLostPacketsForNonRecovery_loop_skip:
  assumes "\<forall>j \<in> set js. hasNonRecoverablePattern N K tot j rs = Some (Inr False)"
  shows "findMinLostPacketsForNonRecovery_loop N K tot rs (js @ rest) =
           findMinLostPacketsForNonRecovery_loop N K tot rs rest"
  using assms by (induction js) simp_all

lemma hasNonRecoverablePattern_far:
  assumes "0 < k" "k \<le> 63" "64 \<le> n - k"
  shows "hasNonRecoverablePattern N K n k rs = Some (Inr False)"
  by (simp add: hasNonRecoverablePattern_def generateCombinations_far [OF assms])

lemma hasNonRecoverablePattern_128_64:
  "hasNonRecoverablePattern 128 0 128 64 (reachableSet_loop [0] Map.empty) = None"
proof -
  let ?cb = "\<lambda>lossPattern.
     let deliveryPattern = sub64 (shl64 1 128) 1 XOR lossPattern
     in \<not> lookup_bool (reachableSet_loop [0] Map.empty) deliveryPattern"
  have a: "sub64 (shl64 1 128) 1 = - 1" "sub64 (shl64 1 64) 1 = - 1"
    by (simp_all add: shl64_one_large sub64_def wrap64_def)
  have b: "shl64 (- 1) 64 = 0" by (rule shl64_large) simp
  have "lookup_bool (reachableSet_loop [0] Map.empty) 0"
    by (simp only: lookup_reachableSet) simp
  moreover have "(- 1 :: int) XOR - 1 = 0" by simp
  ultimately have "\<not> ?cb (- 1)" by (simp only: a Let_def) simp
  then have "generateCombinations_loop ?cb 0 (- 1) [] = None" by (rule loop_forever)
  then have "generateCombinations 128 64 ?cb = None"
    by (simp add: generateCombinations_def a b Let_def)
  then show ?thesis by (simp only: hasNonRecoverablePattern_def option.map)
qed

lemma findMinLostPacketsForNonRecovery_128:
  "findMinLostPacketsForNonRecovery 128 0 128 (reachableSet_loop [0] Map.empty) = None"
proof -
  let ?rs = "reachableSet_loop [0] Map.empty"
  have "[1..<64 + 65] = [1..<64] @ [64..<64 + 65]"
    by (rule upt_add_eq_append) simp
  moreover have "[64..<64 + 65] = 64 # [Suc 64..<64 + 65]"
    by (rule upt_conv_Cons) simp
  moreover have "(64::nat) + 65 = 128 + 1" by simp
  ultimately have split: "[1..<128 + 1] = [1..<64] @ 64 # [Suc 64..<128 + 1]"
    by (simp only:)
  have "\<forall>j \<in> set [1..<64]. hasNonRecoverablePattern 128 0 128 j ?rs = Some (Inr False)"
  proof
    fix j :: nat assume "j \<in> set [1..<64]"
    then have j: "1 \<le> j" "j < 64" by simp_all
    then have "0 < j" "j \<le> 63" "64 \<le> 128 - j" by linarith+
    then show "hasNonRecoverablePattern 128 0 128 j ?rs = Some (Inr False)"
      by (rule hasNonRecoverablePattern_far)
  qed
  then have "findMinLostPacketsForNonRecovery_loop 128 0 128 ?rs ([1..<64] @ 64 # [Suc 64..<128 + 1]) =
      findMinLostPacketsForNonRecovery_loop 128 0 128 ?rs (64 # [Suc 64..<128 + 1])"
    by (rule findMinLostPacketsForNonRecovery_loop_skip)
  also have "\<dots> = None"
    by (simp only: findMinLostPacketsForNonRecovery_loop.simps hasNonRecoverablePattern_128_64
        option.case)
  finally show ?thesis
    by (simp only: findMinLostPacketsForNonRecovery_def split)
qed

text \<open>
  Claim C3, for at most 62 packets.  The call returns, and its field
  \<open>MinLostPacketsForNonRecovery\<close> is the smallest \<open>numLost\<close> in \<open>[1, total]\<close> for which
  some loss pattern with exactly \<open>numLost\<close> bits set among the low \<open>total\<close> bits has its
  delivery pattern absent from the reachable set, and \<open>-1\<close> when there is none.
\<close>

theorem C3_min_lost_packets:
  assumes "N + K \<le> 62"
  shows "\<exists>rc. CalculateRecoveryCharacteristicsFromReachable N K R = Some (Inr rc) \<and>
           is_min_failing (lost_count_fails (N + K) R) (N + K) (MinLostPacketsForNonRecovery rc)"
proof -
  let ?rc = "\<lparr>MinLostPacketsForNonRecovery =
                  first_failing (lost_count_fails (N + K) R) [1..<N + K + 1],
                MinConsecutiveLostForNonRecovery =
                  first_failing (run_fails (N + K) R) [1..<N + K + 1]\<rparr>"
  have "CalculateRecoveryCharacteristicsFromReachable N K R = Some (Inr ?rc)"
    using assms by (rule CalculateRecoveryCharacteristicsFromReachable_small)
  moreover have "is_min_failing (lost_count_fails (N + K) R) (N + K)
      (MinLostPacketsForNonRecovery ?rc)"
    by (simp only: RecoveryCharacteristics.select_convs first_failing_min)
  ultimately show ?thesis by blast
qed

theorem C3_min_lost_packets_witness:
  "(2::nat) + 1 \<le> 62 \<and>
   CalculateRecoveryCharacteristicsFromReachable 2 1 [7, 6, 5, 3] =
     Some (Inr \<lparr>MinLostPacketsForNonRecovery = 2, MinConsecutiveLostForNonRecovery = 2\<rparr>) \<and>
   is_min_failing (lost_count_fails (2 + 1) [7, 6, 5, 3]) (2 + 1) 2"
proof -
  have a: "(2::nat) + 1 \<le> 62" by simp
  have v: "CalculateRecoveryCharacteristicsFromReachable 2 1 [7, 6, 5, 3] =
      Some (Inr \<lparr>MinLostPacketsForNonRecovery = 2, MinConsecutiveLostForNonRecovery = 2\<rparr>)"
    by code_simp
  from C3_min_lost_packets [OF a, of "[7, 6, 5, 3]"] v
  have "is_min_failing (lost_count_fails (2 + 1) [7, 6, 5, 3]) (2 + 1) 2" by simp
  then show ?thesis using a v by simp
qed

text \<open>
  With 64 packets and nothing reachable, the loss of packet 0 alone is not recoverable,
  yet the field is 64: the enumeration of the patterns with fewer than 64 bits is empty
  in 64-bit arithmetic.
\<close>

theorem C3_min_lost_packets_counterexample:
  "CalculateRecoveryCharacteristicsFromReachable 64 0 [] =
     Some (Inr \<lparr>MinLostPacketsForNonRecovery = 64, MinConsecutiveLostForNonRecovery = 1\<rparr>) \<and>
   lost_count_fails (64 + 0) [] 1 \<and>
   \<not> is_min_failing (lost_count_fails (64 + 0) []) (64 + 0) 64"
proof -
  have v: "CalculateRecoveryCharacteristicsFromReachable 64 0 [] =
      Some (Inr \<lparr>MinLostPacketsForNonRecovery = 64, MinConsecutiveLostForNonRecovery = 1\<rparr>)"
    by code_simp
  have "popcount (nat 1) = 1" by code_simp
  then have f: "lost_count_fails (64 + 0) [] 1"
    unfolding lost_count_fails_def by (intro exI [of _ 1]) simp
  have "\<not> is_min_failing (lost_count_fails (64 + 0) []) (64 + 0) 64"
  proof
    assume m: "is_min_failing (lost_count_fails (64 + 0) []) (64 + 0) 64"
    have "\<exists>j. 1 \<le> j \<and> j \<le> 64 + 0 \<and> lost_count_fails (64 + 0) [] j"
      using f by (intro exI [of _ 1]) simp
    with m have "\<forall>j. 1 \<le> j \<and> j < nat 64 \<longrightarrow> \<not> lost_count_fails (64 + 0) [] j"
      unfolding is_min_failing_def by simp
    then have "\<not> lost_count_fails (64 + 0) [] 1" by simp
    then show False using f by simp
  qed
  then show ?thesis using v f by simp
qed

text \<open>
  Claim C6, for at most 62 packets.  The call returns, and its field
  \<open>MinConsecutiveLostForNonRecovery\<close> is the smallest run length in \<open>[1, total]\<close> for
  which, at some start with \<open>start + runLength \<le> total\<close>, the loss pattern with exactly
  the bits \<open>[start, start + runLength)\<close> set has its delivery pattern absent from the
  reachable set, and \<open>-1\<close> when there is none.  When the reachable set holds all
  \<open>2 ^ (N + K)\<close> vertices, both fields are \<open>-1\<close>.
\<close>

theorem C6_min_consecutive_lost:
  assumes "N + K \<le> 62"
  shows "\<exists>rc. CalculateRecoveryCharacteristicsFromReachable N K R = Some (Inr rc) \<and>
           is_min_failing (run_fails (N + K) R) (N + K) (MinConsecutiveLostForNonRecovery rc) \<and>
           ((\<forall>v. 0 \<le> v \<and> v < 2 ^ (N + K) \<longrightarrow> v \<in> set R) \<longrightarrow>
              rc = \<lparr>MinLostPacketsForNonRecovery = - 1, MinConsecutiveLostForNonRecovery = - 1\<rparr>)"
proof -
  let ?rc = "\<lparr>MinLostPacketsForNonRecovery =
                  first_failing (lost_count_fails (N + K) R) [1..<N + K + 1],
                MinConsecutiveLostForNonRecovery =
                  first_failing (run_fails (N + K) R) [1..<N + K + 1]\<rparr>"
  have "CalculateRecoveryCharacteristicsFromReachable N K R = Some (Inr ?rc)"
    using assms by (rule CalculateRecoveryCharacteristicsFromReachable_small)
  moreover have "is_min_failing (run_fails (N + K) R) (N + K)
      (MinConsecutiveLostForNonRecovery ?rc)"
    by (simp only: RecoveryCharacteristics.select_convs first_failing_min)
  moreover have "(\<forall>v. 0 \<le> v \<and> v < 2 ^ (N + K) \<longrightarrow> v \<in> set R) \<longrightarrow>
      ?rc = \<lparr>MinLostPacketsForNonRecovery = - 1, MinConsecutiveLostForNonRecovery = - 1\<rparr>"
  proof
    assume all: "\<forall>v. 0 \<le> v \<and> v < 2 ^ (N + K) \<longrightarrow> v \<in> set R"
    have "first_failing (lost_count_fails (N + K) R) [1..<N + K + 1] = - 1"
      using all_reachable_no_failure(1) [OF all] by (intro first_failing_none) blast
    moreover have "first_failing (run_fails (N + K) R) [1..<N + K + 1] = - 1"
      using all_reachable_no_failure(2) [OF all] by (intro first_failing_none) blast
    ultimately show "?rc =
        \<lparr>MinLostPacketsForNonRecovery = - 1, MinConsecutiveLostForNonRecovery = - 1\<rparr>"
      by (simp only:)
  qed
  ultimately show ?thesis by blast
qed

theorem C6_min_consecutive_lost_witness:
  "(2::nat) + 1 \<le> 62 \<and>
   CalculateRecoveryCharacteristicsFromReachable 2 1 [7, 6, 5, 3] =
     Some (Inr \<lparr>MinLostPacketsForNonRecovery = 2, MinConsecutiveLostForNonRecovery = 2\<rparr>) \<and>
   is_min_failing (run_fails (2 + 1) [7, 6, 5, 3]) (2 + 1) 2 \<and>
   CalculateRecoveryCharacteristicsFromReachable 2 1 [0, 1, 2, 3, 4, 5, 6, 7] =
     Some (Inr \<lparr>MinLostPacketsForNonRecovery = - 1, MinConsecutiveLostForNonRecovery = - 1\<rparr>)"
proof -
  have a: "(2::nat) + 1 \<le> 62" by simp
  have v: "CalculateRecoveryCharacteristicsFromReachable 2 1 [7, 6, 5, 3] =
      Some (Inr \<lparr>MinLostPacketsForNonRecovery = 2, MinConsecutiveLostForNonRecovery = 2\<rparr>)"
    by code_simp
  from C6_min_consecutive_lost [OF a, of "[7, 6, 5, 3]"] v
  have m: "is_min_failing (run_fails (2 + 1) [7, 6, 5, 3]) (2 + 1) 2" by simp
  have all: "\<forall>v::int. 0 \<le> v \<and> v < 2 ^ (2 + 1) \<longrightarrow> v \<in> set [0, 1, 2, 3, 4, 5, 6, 7]"
    by (simp del: upt_Suc) presburger
  from C6_min_consecutive_lost [OF a, of "[0, 1, 2, 3, 4, 5, 6, 7]"] all
  have "CalculateRecoveryCharacteristicsFromReachable 2 1 [0, 1, 2, 3, 4, 5, 6, 7] =
     Some (Inr \<lparr>MinLostPacketsForNonRecovery = - 1, MinConsecutiveLostForNonRecovery = - 1\<rparr>)"
    by auto
  then show ?thesis using a v m by simp
qed

text \<open>
  With 128 packets and vertex 0 reachable the call never returns, so there is no field:
  for \<open>numLost = 64\<close> the enumeration starts at \<open>(1 << 64) - 1 = -1\<close> with the bound
  \<open>-1 << 64 = 0\<close>, the callback rejects \<open>-1\<close>, whose delivery pattern is 0, and the
  next combination is \<open>-1\<close> again.
\<close>

theorem C6_min_consecutive_lost_counterexample:
  "CalculateRecoveryCharacteristicsFromReachable 128 0 [0] = None"
proof -
  have "(128::nat) + 0 = 128" by simp
  then show ?thesis
    by (simp only: CalculateRecoveryCharacteristicsFromReachable_def Let_def
        findMinLostPacketsForNonRecovery_128 option.case)
qed

end
